theory Spec2Isabelle
  imports Main "HOL-Library.Word" "HOL-Library.Multiset"
begin

section \<open>The CSR graph and the triangle-counting kernel (compute.wgsl)\<close>

text \<open>
  WGSL's \<open>u32\<close> is a 32-bit word: \<open>+\<close> and \<open>-\<close> wrap around, \<open><\<close> is the unsigned
  order. A storage buffer \<open>array<u32>\<close> is a list of words; \<open>arrayLength\<close> is itself a
  \<open>u32\<close>.
\<close>

type_synonym u32 = "32 word"

record csr =
  numNodes :: nat
  rowPtr :: "u32 list"
  edgeList :: "u32 list"

definition arrayLength :: "u32 list \<Rightarrow> u32" where
  "arrayLength a = of_nat (length a)"

text \<open>
  A read \<open>a[i]\<close> of a storage buffer. A read past the end of the buffer is the value
  \<open>None\<close>, and every function of the kernel hands it on: a result \<open>Some c\<close> says that the
  run read inside both buffers only.
\<close>

definition rd :: "u32 list \<Rightarrow> u32 \<Rightarrow> u32 option" where
  "rd a i = (if unat i < length a then Some (a ! unat i) else None)"

text \<open>The \<open>while\<close> loop of \<open>is_neighbor\<close>: binary search in \<open>edge_list[start .. en)\<close>.\<close>

function is_neighbor_loop :: "u32 list \<Rightarrow> u32 \<Rightarrow> u32 \<Rightarrow> u32 \<Rightarrow> bool option" where
  "is_neighbor_loop edge_list searchValue start en =
     (if start < en then
        (let mid = start + (en - start) div 2 in
         case rd edge_list mid of
           None \<Rightarrow> None
         | Some val \<Rightarrow>
             if val = searchValue then Some True
             else if val < searchValue then is_neighbor_loop edge_list searchValue (mid + 1) en
             else is_neighbor_loop edge_list searchValue start mid)
      else Some False)"
  by pat_completeness auto
termination
proof (relation "measure (\<lambda>(edge_list, searchValue, start, en). unat en - unat start)")
  show "wf (measure (\<lambda>(edge_list, searchValue, start, en). unat en - unat start))"
    by simp
next
  fix edge_list :: "u32 list" and searchValue start en mid val :: u32
  assume lt: "start < en" and mid: "mid = start + (en - start) div 2"
  have se: "unat start < unat en"
    using lt by (simp add: word_less_nat_alt)
  have eb: "unat en < 2 ^ 32"
    using unsigned_less [of en] by simp
  have "unat (en - start) = unat en - unat start"
    using lt by (simp add: unat_sub_if_size word_less_nat_alt)
  then have d: "unat ((en - start) div 2) = (unat en - unat start) div 2"
    by (simp add: unat_div)
  have "unat start + unat ((en - start) div 2) < 2 ^ LENGTH(32)"
    using se eb d by simp
  then have "unat (start + (en - start) div 2) = unat start + unat ((en - start) div 2)"
    by (simp only: unat_add_lem)
  then have m: "unat mid = unat start + (unat en - unat start) div 2"
    using d mid by simp
  then have "unat mid + unat (1::u32) < 2 ^ LENGTH(32)"
    using se eb by simp
  then have "unat (mid + 1) = unat mid + unat (1::u32)"
    by (simp only: unat_add_lem)
  then have m1: "unat (mid + 1) = Suc (unat mid)"
    by simp
  show "((edge_list, searchValue, mid + 1, en), (edge_list, searchValue, start, en))
          \<in> measure (\<lambda>(edge_list, searchValue, start, en). unat en - unat start)"
    using m m1 se by simp
  show "((edge_list, searchValue, start, mid), (edge_list, searchValue, start, en))
          \<in> measure (\<lambda>(edge_list, searchValue, start, en). unat en - unat start)"
    using m se by simp
qed

declare is_neighbor_loop.simps [simp del]

definition is_neighbor :: "u32 list \<Rightarrow> u32 list \<Rightarrow> u32 \<Rightarrow> u32 \<Rightarrow> bool option" where
  "is_neighbor row_ptr edge_list node searchValue =
     (case rd row_ptr node of
        None \<Rightarrow> None
      | Some start \<Rightarrow>
          (case rd row_ptr (node + 1) of
             None \<Rightarrow> None
           | Some en \<Rightarrow> is_neighbor_loop edge_list searchValue start en))"

text \<open>
  The merge-join \<open>while\<close> loop of \<open>main\<close>. The last argument is the shared counter
  \<open>total_triangles\<close>; \<open>atomicAdd(&total_triangles, 1u)\<close> is \<open>+ 1\<close> on a 32-bit word.
\<close>

function merge_join :: "u32 list \<Rightarrow> u32 \<Rightarrow> u32 \<Rightarrow> u32 \<Rightarrow> u32 \<Rightarrow> u32 \<Rightarrow> u32 option" where
  "merge_join edge_list end_u end_v ptr_u ptr_v total_triangles =
     (if ptr_u < end_u \<and> ptr_v < end_v then
        (case rd edge_list ptr_u of
           None \<Rightarrow> None
         | Some w_from_u \<Rightarrow>
             (case rd edge_list ptr_v of
                None \<Rightarrow> None
              | Some w_from_v \<Rightarrow>
                  if w_from_u = w_from_v then
                    merge_join edge_list end_u end_v (ptr_u + 1) (ptr_v + 1) (total_triangles + 1)
                  else if w_from_u < w_from_v then
                    merge_join edge_list end_u end_v (ptr_u + 1) ptr_v total_triangles
                  else
                    merge_join edge_list end_u end_v ptr_u (ptr_v + 1) total_triangles))
      else Some total_triangles)"
  by pat_completeness auto
termination
proof (relation "measure (\<lambda>(edge_list, end_u, end_v, ptr_u, ptr_v, total_triangles).
                     (unat end_u - unat ptr_u) + (unat end_v - unat ptr_v))")
  have suc: "unat (a + 1) = Suc (unat a)" if "a < b" for a b :: u32
  proof -
    have "unat a < unat b"
      using that by (simp add: word_less_nat_alt)
    moreover have "unat b < 2 ^ 32"
      using unsigned_less [of b] by simp
    ultimately have "unat a + unat (1::u32) < 2 ^ LENGTH(32)"
      by simp
    then have "unat (a + 1) = unat a + unat (1::u32)"
      by (simp only: unat_add_lem)
    then show ?thesis by simp
  qed
  show "wf (measure (\<lambda>(edge_list, end_u, end_v, ptr_u, ptr_v, total_triangles).
                     (unat end_u - unat ptr_u) + (unat end_v - unat ptr_v)))"
    by simp
  fix edge_list :: "u32 list" and end_u end_v ptr_u ptr_v total_triangles :: u32
  assume c: "ptr_u < end_u \<and> ptr_v < end_v"
  then have lt: "unat ptr_u < unat end_u" "unat ptr_v < unat end_v"
    by (simp_all add: word_less_nat_alt)
  have s: "unat (ptr_u + 1) = Suc (unat ptr_u)" "unat (ptr_v + 1) = Suc (unat ptr_v)"
    using c suc by blast+
  show "((edge_list, end_u, end_v, ptr_u + 1, ptr_v + 1, total_triangles + 1),
         (edge_list, end_u, end_v, ptr_u, ptr_v, total_triangles))
        \<in> measure (\<lambda>(edge_list, end_u, end_v, ptr_u, ptr_v, total_triangles).
                     (unat end_u - unat ptr_u) + (unat end_v - unat ptr_v))"
    using lt s by simp
  show "((edge_list, end_u, end_v, ptr_u + 1, ptr_v, total_triangles),
         (edge_list, end_u, end_v, ptr_u, ptr_v, total_triangles))
        \<in> measure (\<lambda>(edge_list, end_u, end_v, ptr_u, ptr_v, total_triangles).
                     (unat end_u - unat ptr_u) + (unat end_v - unat ptr_v))"
    using lt s by simp
  show "((edge_list, end_u, end_v, ptr_u, ptr_v + 1, total_triangles),
         (edge_list, end_u, end_v, ptr_u, ptr_v, total_triangles))
        \<in> measure (\<lambda>(edge_list, end_u, end_v, ptr_u, ptr_v, total_triangles).
                     (unat end_u - unat ptr_u) + (unat end_v - unat ptr_v))"
    using lt s by simp
qed

declare merge_join.simps [simp del]

text \<open>
  The \<open>for\<close> loop of \<open>main\<close> over the neighbours \<open>v = edge_list[i]\<close> of \<open>u\<close>;
  \<open>continue\<close> goes on with \<open>i + 1\<close>.
\<close>

function neighbor_loop ::
  "u32 list \<Rightarrow> u32 list \<Rightarrow> u32 \<Rightarrow> u32 \<Rightarrow> u32 \<Rightarrow> u32 \<Rightarrow> u32 option" where
  "neighbor_loop row_ptr edge_list u end_u i total_triangles =
     (if i < end_u then
        (case rd edge_list i of
           None \<Rightarrow> None
         | Some v \<Rightarrow>
             if v \<le> u then neighbor_loop row_ptr edge_list u end_u (i + 1) total_triangles
             else
               (case rd row_ptr v of
                  None \<Rightarrow> None
                | Some start_v \<Rightarrow>
                    (case rd row_ptr (v + 1) of
                       None \<Rightarrow> None
                     | Some end_v \<Rightarrow>
                         (case merge_join edge_list end_u end_v (i + 1) start_v total_triangles of
                            None \<Rightarrow> None
                          | Some total_triangles' \<Rightarrow>
                              neighbor_loop row_ptr edge_list u end_u (i + 1) total_triangles'))))
      else Some total_triangles)"
  by pat_completeness auto
termination
proof (relation "measure (\<lambda>(row_ptr, edge_list, u, end_u, i, total_triangles). unat end_u - unat i)")
  have suc: "unat end_u - unat (i + 1) < unat end_u - unat i" if "i < end_u" for i end_u :: u32
  proof -
    have lt: "unat i < unat end_u"
      using that by (simp add: word_less_nat_alt)
    moreover have "unat end_u < 2 ^ 32"
      using unsigned_less [of end_u] by simp
    ultimately have "unat i + unat (1::u32) < 2 ^ LENGTH(32)"
      by simp
    then have "unat (i + 1) = unat i + unat (1::u32)"
      by (simp only: unat_add_lem)
    then show ?thesis using lt by simp
  qed
  show "wf (measure (\<lambda>(row_ptr, edge_list, u, end_u, i, total_triangles). unat end_u - unat i))"
    by simp
  fix row_ptr edge_list :: "u32 list" and u end_u i total_triangles :: u32
  assume "i < end_u"
  then show "((row_ptr, edge_list, u, end_u, i + 1, total_triangles),
              (row_ptr, edge_list, u, end_u, i, total_triangles))
             \<in> measure (\<lambda>(row_ptr, edge_list, u, end_u, i, total_triangles). unat end_u - unat i)"
    using suc by simp
  fix c :: u32
  assume "i < end_u"
  then show "((row_ptr, edge_list, u, end_u, i + 1, c),
              (row_ptr, edge_list, u, end_u, i, total_triangles))
             \<in> measure (\<lambda>(row_ptr, edge_list, u, end_u, i, total_triangles). unat end_u - unat i)"
    using suc by simp
qed

declare neighbor_loop.simps [simp del]

text \<open>
  One invocation of the entry point \<open>main\<close> with \<open>global_id.x = u\<close>: the counter before,
  the counter after.
\<close>

definition main :: "u32 list \<Rightarrow> u32 list \<Rightarrow> u32 \<Rightarrow> u32 \<Rightarrow> u32 option" where
  "main row_ptr edge_list u total_triangles =
     (let num_nodes = arrayLength row_ptr - 1 in
      if u \<ge> num_nodes then Some total_triangles
      else
        (case rd row_ptr u of
           None \<Rightarrow> None
         | Some start_u \<Rightarrow>
             (case rd row_ptr (u + 1) of
                None \<Rightarrow> None
              | Some end_u \<Rightarrow> neighbor_loop row_ptr edge_list u end_u start_u total_triangles)))"

text \<open>
  A dispatch runs \<open>main\<close> once for every invocation id of the grid. The invocations
  touch nothing but the counter, each through \<open>atomicAdd\<close>, so a run is the invocations
  in some order \<open>ts\<close>, the counter handed from one to the next.
\<close>

fun run_tasks :: "u32 list \<Rightarrow> u32 list \<Rightarrow> u32 list \<Rightarrow> u32 \<Rightarrow> u32 option" where
  "run_tasks row_ptr edge_list [] total_triangles = Some total_triangles"
| "run_tasks row_ptr edge_list (t # ts) total_triangles =
     (case main row_ptr edge_list t total_triangles of
        None \<Rightarrow> None
      | Some total_triangles' \<Rightarrow> run_tasks row_ptr edge_list ts total_triangles')"

text \<open>The invocation ids of \<open>dispatchWorkgroups(numWorkgroups)\<close> with \<open>@workgroup_size(wg)\<close>.\<close>

definition grid :: "nat \<Rightarrow> nat \<Rightarrow> u32 list" where
  "grid wg numWorkgroups = map of_nat [0..<numWorkgroups * wg]"

definition workgroupSize :: nat where
  "workgroupSize = 256"

text \<open>\<open>Math.ceil(numNodes / wg)\<close>\<close>

definition ceil_div :: "nat \<Rightarrow> nat \<Rightarrow> nat" where
  "ceil_div n wg = (if n mod wg = 0 then n div wg else n div wg + 1)"

text \<open>
  Steps 6 and 7 of \<open>runTriangleCounting\<close> (main.js): the result buffer is cleared, the
  grid of \<open>Math.ceil(numNodes / workgroupSize)\<close> workgroups is dispatched, and the counter
  is read back into a \<open>Uint32Array\<close>. The limits that a device puts on the size of a
  buffer or of a dispatch are outside the model.
\<close>

definition runTriangleCounting :: "csr \<Rightarrow> u32 option" where
  "runTriangleCounting g =
     run_tasks (rowPtr g) (edgeList g)
       (grid workgroupSize (ceil_div (numNodes g) workgroupSize)) 0"

section \<open>The CSR builder (parseGraphToCSR in main.js)\<close>

text \<open>
  A JavaScript string is a sequence of UTF-16 code units. The white space of \<open>trim\<close>,
  of the regular expression \<open>\s\<close> and of \<open>parseInt\<close> is the same set of code units: TAB,
  LF, VT, FF, CR, the space, the no-break space, the other space separators of Unicode,
  the line and paragraph separators and the byte order mark. \<open>js\<close> writes an ASCII
  literal as a JavaScript string. Node ids are JavaScript Numbers holding integers;
  they are modelled as \<open>int\<close>, which is exact up to \<open>2 ^ 53\<close> (beyond it \<open>parseInt\<close> rounds
  to a double, and two long digit strings can name the same node).
\<close>

type_synonym jsstring = "16 word list"

definition js :: "string \<Rightarrow> jsstring" where
  "js s = map (\<lambda>c. of_nat (of_char c)) s"

definition is_space :: "16 word \<Rightarrow> bool" where
  "is_space c =
     (c \<in> set [0x0009, 0x000A, 0x000B, 0x000C, 0x000D, 0x0020, 0x00A0, 0x1680,
               0x2000, 0x2001, 0x2002, 0x2003, 0x2004, 0x2005, 0x2006, 0x2007, 0x2008,
               0x2009, 0x200A, 0x2028, 0x2029, 0x202F, 0x205F, 0x3000, 0xFEFF])"

definition is_digit :: "16 word \<Rightarrow> bool" where
  "is_digit c = (0x30 \<le> c \<and> c \<le> 0x39)"

definition trim :: "jsstring \<Rightarrow> jsstring" where
  "trim s = rev (dropWhile is_space (rev (dropWhile is_space s)))"

text \<open>\<open>text.split('\n')\<close>\<close>

fun split_nl :: "jsstring \<Rightarrow> jsstring list" where
  "split_nl [] = [[]]"
| "split_nl (c # cs) =
     (if c = 0x0A then [] # split_nl cs
      else (case split_nl cs of [] \<Rightarrow> [[c]] | l # ls \<Rightarrow> (c # l) # ls))"

text \<open>\<open>s.split(/\s+/)\<close>: the pieces between the maximal runs of white space.\<close>

function split_ws :: "jsstring \<Rightarrow> jsstring list" where
  "split_ws s =
     (case dropWhile (\<lambda>c. \<not> is_space c) s of
        [] \<Rightarrow> [s]
      | c # rest \<Rightarrow> takeWhile (\<lambda>c. \<not> is_space c) s # split_ws (dropWhile is_space rest))"
  by pat_completeness auto
termination
proof (relation "measure length")
  show "wf (measure (length :: jsstring \<Rightarrow> nat))"
    by simp
  fix s :: jsstring and c rest
  assume d: "dropWhile (\<lambda>c. \<not> is_space c) s = c # rest"
  have "length (dropWhile is_space rest) \<le> length rest"
    by (rule length_dropWhile_le)
  also have "\<dots> < length (dropWhile (\<lambda>c. \<not> is_space c) s)"
    using d by simp
  also have "\<dots> \<le> length s"
    by (rule length_dropWhile_le)
  finally show "(dropWhile is_space rest, s) \<in> measure length"
    by simp
qed

declare split_ws.simps [simp del]

text \<open>
  \<open>parseInt(s, 10)\<close>: leading white space is dropped, a sign (\<open>-\<close> is 0x2D, \<open>+\<close> is 0x2B)
  is read, and the longest prefix of decimal digits is the value; with no digit the
  result is \<open>NaN\<close>, here \<open>None\<close>. A missing array element is \<open>undefined\<close>, which
  \<open>parseInt\<close> reads as the string \<open>undefined\<close>.
\<close>

definition digits_value :: "jsstring \<Rightarrow> int" where
  "digits_value ds = foldl (\<lambda>a c. 10 * a + (int (unat c) - 48)) 0 ds"

definition parseInt :: "jsstring \<Rightarrow> int option" where
  "parseInt inputString =
     (let S = dropWhile is_space inputString;
          sign = (if S \<noteq> [] \<and> hd S = 0x2D then - 1 else 1);
          S' = (if S \<noteq> [] \<and> (hd S = 0x2B \<or> hd S = 0x2D) then tl S else S);
          Z = takeWhile is_digit S'
      in if Z = [] then None else Some (sign * digits_value Z))"

definition parseInt_arg :: "jsstring option \<Rightarrow> int option" where
  "parseInt_arg a = (case a of None \<Rightarrow> parseInt (js ''undefined'') | Some s \<Rightarrow> parseInt s)"

definition nth_opt :: "'a list \<Rightarrow> nat \<Rightarrow> 'a option" where
  "nth_opt xs i = (if i < length xs then Some (xs ! i) else None)"

text \<open>
  A JavaScript \<open>Set\<close> keeps its elements in insertion order: a list without
  repetition; \<open>add\<close> appends an element that is not there yet. The \<open>Map\<close> \<open>adj\<close> is
  only read by key.
\<close>

definition set_add :: "'a \<Rightarrow> 'a list \<Rightarrow> 'a list" where
  "set_add x xs = (if x \<in> set xs then xs else xs @ [x])"

record build_state =
  adj :: "int \<Rightarrow> int list option"
  allNodeIds :: "int list"

definition ensure_key :: "int \<Rightarrow> (int \<Rightarrow> int list option) \<Rightarrow> (int \<Rightarrow> int list option)" where
  "ensure_key u m = (if m u = None then m(u \<mapsto> []) else m)"

text \<open>\<open>adj.get(u).add(v)\<close>; the key is there, \<open>ensure_key\<close> ran before.\<close>

definition adj_add :: "int \<Rightarrow> int \<Rightarrow> (int \<Rightarrow> int list option) \<Rightarrow> (int \<Rightarrow> int list option)" where
  "adj_add u v m = (case m u of None \<Rightarrow> m | Some s \<Rightarrow> m(u \<mapsto> set_add v s))"

text \<open>
  The body of \<open>lines.forEach\<close>, one record of the input. First the two fields are
  parsed; a record with a field that is \<open>NaN\<close> is left out (the early \<open>return\<close>).
\<close>

definition parse_line :: "jsstring \<Rightarrow> (int \<times> int) option" where
  "parse_line line =
     (let toks = split_ws (trim line);
          u = parseInt_arg (nth_opt toks 0);
          v = parseInt_arg (nth_opt toks 1)
      in case u of
           None \<Rightarrow> None
         | Some u' \<Rightarrow> (case v of None \<Rightarrow> None | Some v' \<Rightarrow> Some (u', v')))"

text \<open>Then both ids are recorded, and the edge unless it is a self-loop.\<close>

definition add_edge :: "int \<Rightarrow> int \<Rightarrow> build_state \<Rightarrow> build_state" where
  "add_edge u v st =
     (let ids = set_add v (set_add u (allNodeIds st));
          m = ensure_key v (ensure_key u (adj st));
          m' = (if u \<noteq> v then adj_add v u (adj_add u v m) else m)
      in \<lparr>adj = m', allNodeIds = ids\<rparr>)"

definition add_line :: "jsstring \<Rightarrow> build_state \<Rightarrow> build_state" where
  "add_line line st = (case parse_line line of None \<Rightarrow> st | Some (u, v) \<Rightarrow> add_edge u v st)"

text \<open>
  An element stored into a \<open>Uint32Array\<close> is reduced modulo \<open>2 ^ 32\<close>; \<open>undefined\<close>
  (a key that \<open>nodeMap\<close> does not have) is stored as 0.
\<close>

definition to_uint32 :: "nat option \<Rightarrow> u32" where
  "to_uint32 x = (case x of None \<Rightarrow> 0 | Some k \<Rightarrow> of_nat k)"

text \<open>
  One round \<open>i\<close> of the loop that fills \<open>rowPtr\<close> and \<open>edgeListData\<close>; the state is
  \<open>(rowPtr, edgeListData, currentEdgeIndex)\<close>, the array \<open>rowPtr\<close> written \<open>rp\<close>.
\<close>

definition row_step ::
  "(int \<Rightarrow> int list option) \<Rightarrow> int list \<Rightarrow> (int \<Rightarrow> nat option) \<Rightarrow> nat \<Rightarrow>
     u32 list \<times> nat option list \<times> nat \<Rightarrow> u32 list \<times> nat option list \<times> nat" where
  "row_step adj_map sortedNodeIds nodeMap i s =
     (case s of (rp, edgeListData, currentEdgeIndex) \<Rightarrow>
        (let rowPtr' = rp[i := of_nat currentEdgeIndex];
             originalId = sortedNodeIds ! i
         in case adj_map originalId of
              None \<Rightarrow> (rowPtr', edgeListData, currentEdgeIndex)
            | Some nbs \<Rightarrow>
                (let neighbors = map nodeMap (sort nbs)
                 in (rowPtr', edgeListData @ neighbors, currentEdgeIndex + length neighbors))))"

text \<open>
  Lines 95 to 123: the ids are sorted, \<open>nodeMap\<close> sends each id to its rank (a later
  entry of a \<open>Map\<close> constructor overrides an earlier one), and the rows are emitted.
\<close>

definition build_csr :: "build_state \<Rightarrow> csr" where
  "build_csr st =
     (let sortedNodeIds = sort (allNodeIds st);
          nodeMap = map_of (rev (zip sortedNodeIds [0..<length sortedNodeIds]));
          n = length sortedNodeIds
      in case fold (row_step (adj st) sortedNodeIds nodeMap) [0..<n]
                (replicate (n + 1) 0, [], 0) of
           (rp, edgeListData, currentEdgeIndex) \<Rightarrow>
             \<lparr>numNodes = n,
              rowPtr = rp[n := of_nat currentEdgeIndex],
              edgeList = map to_uint32 edgeListData\<rparr>)"

definition init_state :: build_state where
  "init_state = \<lparr>adj = Map.empty, allNodeIds = []\<rparr>"

text \<open>
  The records of the text: its lines, without the blank ones and the comments (\<open>#\<close> is
  0x23).
\<close>

definition lines_of :: "jsstring \<Rightarrow> jsstring list" where
  "lines_of text =
     filter (\<lambda>line. trim line \<noteq> [] \<and> \<not> (line \<noteq> [] \<and> hd line = 0x23)) (split_nl text)"

definition csr_of_lines :: "jsstring list \<Rightarrow> csr" where
  "csr_of_lines ls = build_csr (fold add_line ls init_state)"

definition parseGraphToCSR :: "jsstring \<Rightarrow> csr" where
  "parseGraphToCSR text = csr_of_lines (lines_of text)"

section \<open>What the kernel is to compute\<close>

text \<open>
  The neighbour sub-list of node \<open>i\<close>: \<open>edgeList[rowPtr[i] .. rowPtr[i+1])\<close>, its
  entries read as numbers.
\<close>

definition segment :: "'a list \<Rightarrow> nat \<Rightarrow> nat \<Rightarrow> 'a list" where
  "segment xs s e = take (e - s) (drop s xs)"

definition nbrs :: "csr \<Rightarrow> nat \<Rightarrow> nat list" where
  "nbrs g i = map unat (segment (edgeList g) (unat (rowPtr g ! i)) (unat (rowPtr g ! Suc i)))"

definition edge :: "csr \<Rightarrow> nat \<Rightarrow> nat \<Rightarrow> bool" where
  "edge g u v = (v \<in> set (nbrs g u))"

text \<open>
  The invariants of the CSR graph. \<open>rowPtr_ok\<close>: \<open>rowPtr\<close> has \<open>numNodes + 1\<close> entries
  (a number that \<open>arrayLength\<close> can return), does not decrease, and ends at the length
  of \<open>edgeList\<close>. \<open>ids_ok\<close>: the entries of \<open>edgeList\<close> are node ids. \<open>rows_strict\<close>:
  every sub-list increases strictly. \<open>no_self\<close>: no node is in its own sub-list.
  \<open>symmetric\<close>: \<open>v\<close> is in the sub-list of \<open>u\<close> exactly when \<open>u\<close> is in that of \<open>v\<close>.
\<close>

definition rowPtr_ok :: "csr \<Rightarrow> bool" where
  "rowPtr_ok g =
     (length (rowPtr g) = numNodes g + 1 \<and> numNodes g + 1 < 2 ^ 32 \<and>
      sorted (rowPtr g) \<and> unat (rowPtr g ! numNodes g) = length (edgeList g))"

definition ids_ok :: "csr \<Rightarrow> bool" where
  "ids_ok g = (\<forall>e \<in> set (edgeList g). unat e < numNodes g)"

definition rows_strict :: "csr \<Rightarrow> bool" where
  "rows_strict g = (\<forall>i < numNodes g. sorted_wrt (<) (nbrs g i))"

definition no_self :: "csr \<Rightarrow> bool" where
  "no_self g = (\<forall>i < numNodes g. \<not> edge g i i)"

definition symmetric :: "csr \<Rightarrow> bool" where
  "symmetric g = (\<forall>u < numNodes g. \<forall>v < numNodes g. edge g u v = edge g v u)"

definition csr_ok :: "csr \<Rightarrow> bool" where
  "csr_ok g = (rowPtr_ok g \<and> ids_ok g \<and> rows_strict g \<and> no_self g \<and> symmetric g)"

text \<open>
  A triangle is a set of three nodes, every two of them joined by an edge.
  \<open>triangles_at g a\<close> holds the pairs \<open>(b, c)\<close> that make a triangle with \<open>a\<close> as its
  least node: \<open>a < b < c\<close>.
\<close>

definition triangles :: "csr \<Rightarrow> nat set set" where
  "triangles g =
     {T. T \<subseteq> {..<numNodes g} \<and> card T = 3 \<and> (\<forall>u \<in> T. \<forall>v \<in> T. u \<noteq> v \<longrightarrow> edge g u v)}"

definition triangles_at :: "csr \<Rightarrow> nat \<Rightarrow> (nat \<times> nat) set" where
  "triangles_at g a =
     {(b, c). a < b \<and> b < c \<and> edge g a b \<and> edge g a c \<and> edge g b c}"



text \<open>
  The graph that the records describe: \<open>parsed\<close> are the pairs of the records that
  parse, \<open>node_ids\<close> their endpoints, \<open>nbr_ids ps k\<close> the neighbours of \<open>k\<close> (an edge
  joins two different ids, in either order), and \<open>input_triangles\<close> the triangles.
  \<open>rank_of V k\<close> is the rank of \<open>k\<close> among the ids \<open>V\<close>, its internal id.
\<close>

definition parsed :: "jsstring list \<Rightarrow> (int \<times> int) list" where
  "parsed ls = List.map_filter parse_line ls"

definition node_ids :: "(int \<times> int) list \<Rightarrow> int set" where
  "node_ids ps = fst ` set ps \<union> snd ` set ps"

definition nbr_ids :: "(int \<times> int) list \<Rightarrow> int \<Rightarrow> int set" where
  "nbr_ids ps k = {v. v \<noteq> k \<and> ((k, v) \<in> set ps \<or> (v, k) \<in> set ps)}"

definition input_triangles :: "(int \<times> int) list \<Rightarrow> int set set" where
  "input_triangles ps = {T. card T = 3 \<and> (\<forall>u \<in> T. \<forall>v \<in> T. u \<noteq> v \<longrightarrow> v \<in> nbr_ids ps u)}"

definition rank_of :: "int set \<Rightarrow> int \<Rightarrow> nat" where
  "rank_of V k = card {x \<in> V. x < k}"

text \<open>
  A builder state that holds the graph of the pairs \<open>ps\<close>: \<open>allNodeIds\<close> lists the
  endpoints once each, and \<open>adj\<close> has exactly them as keys, each with its neighbours
  listed once each.
\<close>

definition state_of :: "(int \<times> int) list \<Rightarrow> build_state \<Rightarrow> bool" where
  "state_of ps st =
     (distinct (allNodeIds st) \<and> set (allNodeIds st) = node_ids ps \<and>
      (\<forall>k. (adj st k = None) = (k \<notin> node_ids ps)) \<and>
      (\<forall>k s. adj st k = Some s \<longrightarrow> distinct s \<and> set s = nbr_ids ps k))"

text \<open>What round \<open>i\<close> of the row loop appends to \<open>edgeListData\<close>.\<close>

definition row_data ::
  "(int \<Rightarrow> int list option) \<Rightarrow> int list \<Rightarrow> (int \<Rightarrow> nat option) \<Rightarrow> nat \<Rightarrow> nat option list" where
  "row_data adj_map sortedNodeIds nodeMap i =
     (case adj_map (sortedNodeIds ! i) of None \<Rightarrow> [] | Some nbs \<Rightarrow> map nodeMap (sort nbs))"

text \<open>
  The CSR graph as section 4.1 of the specification builds it from the pairs: the
  ids sorted ascending and numbered by rank; for each internal id in ascending order
  its neighbour set as the ascending sequence of internal ids; \<open>rowPtr\<close> the running
  offsets.
\<close>

definition spec_rows :: "(int \<times> int) list \<Rightarrow> nat \<Rightarrow> nat list" where
  "spec_rows ps j =
     map (rank_of (node_ids ps))
       (sorted_list_of_set (nbr_ids ps (sorted_list_of_set (node_ids ps) ! j)))"

definition spec_offset :: "(int \<times> int) list \<Rightarrow> nat \<Rightarrow> nat" where
  "spec_offset ps j = length (concat (map (spec_rows ps) [0..<j]))"

definition spec_csr :: "(int \<times> int) list \<Rightarrow> csr" where
  "spec_csr ps =
     (let n = card (node_ids ps)
      in \<lparr>numNodes = n,
          rowPtr = map (\<lambda>j. of_nat (spec_offset ps j)) [0..<n + 1],
          edgeList = map of_nat (concat (map (spec_rows ps) [0..<n]))\<rparr>)"

text \<open>
  The complete graph on \<open>n\<close> nodes as a CSR graph: the sub-list of node \<open>i\<close> holds
  every other node, ascending.
\<close>

definition complete_csr :: "nat \<Rightarrow> csr" where
  "complete_csr n =
     \<lparr>numNodes = n,
      rowPtr = map (\<lambda>i. of_nat (i * (n - 1))) [0..<n + 1],
      edgeList = concat (map (\<lambda>i. map of_nat ([0..<i] @ [Suc i..<n])) [0..<n])\<rparr>"

text \<open>The merge-join and the loop over a sub-list, on lists of numbers.\<close>

fun isect :: "nat list \<Rightarrow> nat list \<Rightarrow> nat" where
  "isect [] ys = 0"
| "isect (x # xs) [] = 0"
| "isect (x # xs) (y # ys) =
     (if x = y then Suc (isect xs ys)
      else if x < y then isect xs (y # ys)
      else isect (x # xs) ys)"

fun row_count :: "csr \<Rightarrow> nat \<Rightarrow> nat list \<Rightarrow> nat" where
  "row_count g u [] = 0"
| "row_count g u (v # rest) =
     (if v \<le> u then 0 else isect rest (nbrs g v)) + row_count g u rest"

section \<open>The kernel computes the triangle count\<close>

subsection \<open>Words, reads and segments\<close>

lemma unat_suc_lt: "unat (a::u32) < unat (b::u32) \<Longrightarrow> unat (a + 1) = Suc (unat a)"
proof -
  assume "unat a < unat b"
  moreover have "unat b < 2 ^ 32"
    using unsigned_less [of b] by simp
  ultimately have "unat a + unat (1::u32) < 2 ^ LENGTH(32)"
    by simp
  then have "unat (a + 1) = unat a + unat (1::u32)"
    by (simp only: unat_add_lem)
  then show ?thesis by simp
qed

lemma unat_suc_bound: "unat (a::u32) < k \<Longrightarrow> k < 2 ^ 32 \<Longrightarrow> unat (a + 1) = Suc (unat a)"
proof -
  assume "unat a < k" "k < 2 ^ 32"
  then have "unat a + unat (1::u32) < 2 ^ LENGTH(32)"
    by simp
  then have "unat (a + 1) = unat a + unat (1::u32)"
    by (simp only: unat_add_lem)
  then show ?thesis by simp
qed

lemma unat_of_nat_small: "k < 2 ^ 32 \<Longrightarrow> unat (of_nat k :: u32) = k"
  by (simp add: unat_of_nat)

lemma rd_Some: "unat i < length a \<Longrightarrow> rd a i = Some (a ! unat i)"
  by (simp add: rd_def)

lemma segment_empty: "e \<le> s \<Longrightarrow> segment xs s e = []"
  by (simp add: segment_def)

lemma segment_Cons: "s < e \<Longrightarrow> e \<le> length xs \<Longrightarrow> segment xs s e = xs ! s # segment xs (Suc s) e"
proof -
  assume a: "s < e" "e \<le> length xs"
  then have "drop s xs = xs ! s # drop (Suc s) xs"
    by (simp add: Cons_nth_drop_Suc)
  moreover have "e - s = Suc (e - Suc s)"
    using a by simp
  ultimately show ?thesis
    by (simp add: segment_def)
qed

lemma isect_Nil2: "isect xs [] = 0"
  by (cases xs) simp_all

lemma merge_join_isect:
  "unat end_u \<le> length el \<Longrightarrow> unat end_v \<le> length el \<Longrightarrow>
   merge_join el end_u end_v ptr_u ptr_v c =
     Some (c + of_nat (isect (map unat (segment el (unat ptr_u) (unat end_u)))
                             (map unat (segment el (unat ptr_v) (unat end_v)))))"
proof (induction el end_u end_v ptr_u ptr_v c rule: merge_join.induct)
  case (1 el end_u end_v ptr_u ptr_v c)
  show ?case
  proof (cases "ptr_u < end_u \<and> ptr_v < end_v")
    case False
    then have "unat end_u \<le> unat ptr_u \<or> unat end_v \<le> unat ptr_v"
      by (auto simp: word_less_nat_alt)
    then have "isect (map unat (segment el (unat ptr_u) (unat end_u)))
                     (map unat (segment el (unat ptr_v) (unat end_v))) = 0"
      by (auto simp: segment_empty isect_Nil2)
    with False show ?thesis
      by (subst merge_join.simps) auto
  next
    case True
    then have lu: "unat ptr_u < unat end_u" and lv: "unat ptr_v < unat end_v"
      by (simp_all add: word_less_nat_alt)
    have su: "unat (ptr_u + 1) = Suc (unat ptr_u)" and sv: "unat (ptr_v + 1) = Suc (unat ptr_v)"
      using lu lv by (simp_all add: unat_suc_lt)
    have ru: "rd el ptr_u = Some (el ! unat ptr_u)" and rv: "rd el ptr_v = Some (el ! unat ptr_v)"
      using lu lv "1.prems" by (simp_all add: rd_Some)
    have cu: "segment el (unat ptr_u) (unat end_u) = el ! unat ptr_u # segment el (Suc (unat ptr_u)) (unat end_u)"
      using lu "1.prems" by (simp add: segment_Cons)
    have cv: "segment el (unat ptr_v) (unat end_v) = el ! unat ptr_v # segment el (Suc (unat ptr_v)) (unat end_v)"
      using lv "1.prems" by (simp add: segment_Cons)
    let ?a = "el ! unat ptr_u" and ?b = "el ! unat ptr_v"
    consider (eq) "?a = ?b" | (lt) "?a \<noteq> ?b" "?a < ?b" | (gt) "?a \<noteq> ?b" "\<not> ?a < ?b"
      by blast
    then show ?thesis
    proof cases
      case eq
      have "merge_join el end_u end_v ptr_u ptr_v c =
            merge_join el end_u end_v (ptr_u + 1) (ptr_v + 1) (c + 1)"
        using True ru rv eq by (subst merge_join.simps) simp
      also have "\<dots> = Some (c + 1 + of_nat (isect (map unat (segment el (Suc (unat ptr_u)) (unat end_u)))
                             (map unat (segment el (Suc (unat ptr_v)) (unat end_v)))))"
        using "1.IH"(1) [OF True ru rv eq "1.prems"] su sv by simp
      finally show ?thesis
        using eq by (simp add: cu cv)
    next
      case lt
      have "merge_join el end_u end_v ptr_u ptr_v c =
            merge_join el end_u end_v (ptr_u + 1) ptr_v c"
        using True ru rv lt by (subst merge_join.simps) simp
      also have "\<dots> = Some (c + of_nat (isect (map unat (segment el (Suc (unat ptr_u)) (unat end_u)))
                             (map unat (segment el (unat ptr_v) (unat end_v)))))"
        using "1.IH"(2) [OF True ru rv lt(1) lt(2) "1.prems"] su by simp
      finally show ?thesis
        using lt by (simp add: cu cv word_less_nat_alt word_unat_eq_iff)
    next
      case gt
      have "merge_join el end_u end_v ptr_u ptr_v c =
            merge_join el end_u end_v ptr_u (ptr_v + 1) c"
        using True ru rv gt by (subst merge_join.simps) simp
      also have "\<dots> = Some (c + of_nat (isect (map unat (segment el (unat ptr_u) (unat end_u)))
                             (map unat (segment el (Suc (unat ptr_v)) (unat end_v)))))"
        using "1.IH"(3) [OF True ru rv gt(1) gt(2) "1.prems"] sv by simp
      finally show ?thesis
        using gt by (simp add: cu cv word_less_nat_alt word_unat_eq_iff)
    qed
  qed
qed

subsection \<open>The loops of the kernel follow the list functions\<close>

lemma sorted_nth_le_word: "sorted (xs :: u32 list) \<Longrightarrow> i \<le> j \<Longrightarrow> j < length xs \<Longrightarrow> unat (xs ! i) \<le> unat (xs ! j)"
  by (simp add: sorted_nth_mono word_le_nat_alt [symmetric])

lemma row_end_le:
  assumes "rowPtr_ok g" and "k \<le> numNodes g"
  shows "unat (rowPtr g ! k) \<le> length (edgeList g)"
proof -
  have "unat (rowPtr g ! k) \<le> unat (rowPtr g ! numNodes g)"
    using assms by (intro sorted_nth_le_word) (simp_all add: rowPtr_ok_def)
  then show ?thesis
    using assms by (simp add: rowPtr_ok_def)
qed

lemma neighbor_loop_row_count:
  assumes ok: "rowPtr_ok g" "ids_ok g"
    and rp: "row_ptr = rowPtr g" and el: "edge_list = edgeList g"
    and eu: "unat end_u \<le> length (edgeList g)"
  shows "neighbor_loop row_ptr edge_list u end_u i c =
           Some (c + of_nat (row_count g (unat u) (map unat (segment edge_list (unat i) (unat end_u)))))"
  using rp el eu
proof (induction row_ptr edge_list u end_u i c rule: neighbor_loop.induct)
  case (1 row_ptr edge_list u end_u i c)
  note rp = "1.prems"(1) and el = "1.prems"(2) and eu = "1.prems"(3)
  show ?case
  proof (cases "i < end_u")
    case False
    then have "unat end_u \<le> unat i"
      by (simp add: word_less_nat_alt)
    then have "segment edge_list (unat i) (unat end_u) = []"
      by (simp add: segment_empty)
    with False show ?thesis
      by (subst neighbor_loop.simps) simp
  next
    case True
    then have li: "unat i < unat end_u"
      by (simp add: word_less_nat_alt)
    have si: "unat (i + 1) = Suc (unat i)"
      using li by (simp add: unat_suc_lt)
    have ri: "rd edge_list i = Some (edge_list ! unat i)"
      using li eu el by (simp add: rd_Some)
    let ?v = "edge_list ! unat i"
    have ci: "segment edge_list (unat i) (unat end_u) = ?v # segment edge_list (Suc (unat i)) (unat end_u)"
      using li eu el by (simp add: segment_Cons)
    show ?thesis
    proof (cases "?v \<le> u")
      case le: True
      have "neighbor_loop row_ptr edge_list u end_u i c = neighbor_loop row_ptr edge_list u end_u (i + 1) c"
        using True ri le by (subst neighbor_loop.simps) simp
      also have "\<dots> = Some (c + of_nat (row_count g (unat u) (map unat (segment edge_list (Suc (unat i)) (unat end_u)))))"
        using "1.IH"(1) [OF True ri le rp el eu] si by simp
      finally show ?thesis
        using le by (simp add: ci word_le_nat_alt)
    next
      case gt: False
      have vin: "?v \<in> set (edgeList g)"
        using li eu el by (auto intro: nth_mem)
      then have vn: "unat ?v < numNodes g"
        using ok(2) by (simp add: ids_ok_def)
      have n32: "numNodes g + 1 < 2 ^ 32" and lrp: "length row_ptr = numNodes g + 1"
        using ok(1) rp by (simp_all add: rowPtr_ok_def)
      have sv: "unat (?v + 1) = Suc (unat ?v)"
        using vn n32 by (intro unat_suc_bound [of _ "numNodes g"]) simp_all
      have r1: "rd row_ptr ?v = Some (row_ptr ! unat ?v)"
        using vn lrp by (simp add: rd_Some)
      have r2: "rd row_ptr (?v + 1) = Some (row_ptr ! Suc (unat ?v))"
        using vn lrp sv by (simp add: rd_def)
      let ?sv = "row_ptr ! unat ?v" and ?ev = "row_ptr ! Suc (unat ?v)"
      have evl: "unat ?ev \<le> length edge_list"
        using row_end_le [OF ok(1), of "Suc (unat ?v)"] vn rp el by simp
      let ?k = "isect (map unat (segment edge_list (Suc (unat i)) (unat end_u))) (nbrs g (unat ?v))"
      have mj: "merge_join edge_list end_u ?ev (i + 1) ?sv c = Some (c + of_nat ?k)"
        using merge_join_isect [of end_u edge_list ?ev "i + 1" ?sv c] eu el evl si
        by (simp add: nbrs_def rp el)
      have "neighbor_loop row_ptr edge_list u end_u i c =
            neighbor_loop row_ptr edge_list u end_u (i + 1) (c + of_nat ?k)"
        using True ri gt r1 r2 mj by (subst neighbor_loop.simps) simp
      also have "\<dots> = Some (c + of_nat ?k + of_nat (row_count g (unat u) (map unat (segment edge_list (Suc (unat i)) (unat end_u)))))"
        using "1.IH"(2) [OF True ri gt r1 r2 mj rp el eu] si by simp
      finally show ?thesis
        using gt by (simp add: ci word_le_nat_alt add.assoc)
    qed
  qed
qed

lemma arrayLength_num_nodes:
  assumes "rowPtr_ok g"
  shows "unat (arrayLength (rowPtr g) - 1) = numNodes g"
proof -
  have "arrayLength (rowPtr g) - 1 = (of_nat (numNodes g) :: u32)"
    using assms by (simp add: arrayLength_def rowPtr_ok_def)
  moreover have "numNodes g < 2 ^ 32"
    using assms by (simp add: rowPtr_ok_def)
  ultimately show ?thesis
    by (simp add: unat_of_nat)
qed

lemma main_out_of_range:
  assumes "rowPtr_ok g" and "numNodes g \<le> unat u"
  shows "main (rowPtr g) (edgeList g) u c = Some c"
  using assms arrayLength_num_nodes [OF assms(1)]
  by (simp add: main_def Let_def word_le_nat_alt)

lemma main_row_count:
  assumes ok: "rowPtr_ok g" "ids_ok g" and u: "unat u < numNodes g"
  shows "main (rowPtr g) (edgeList g) u c = Some (c + of_nat (row_count g (unat u) (nbrs g (unat u))))"
proof -
  have n32: "numNodes g + 1 < 2 ^ 32" and lrp: "length (rowPtr g) = numNodes g + 1"
    using ok(1) by (simp_all add: rowPtr_ok_def)
  have su: "unat (u + 1) = Suc (unat u)"
    using u n32 by (intro unat_suc_bound [of _ "numNodes g"]) simp_all
  have r1: "rd (rowPtr g) u = Some (rowPtr g ! unat u)"
    using u lrp by (simp add: rd_Some)
  have r2: "rd (rowPtr g) (u + 1) = Some (rowPtr g ! Suc (unat u))"
    using u lrp su by (simp add: rd_def)
  have eu: "unat (rowPtr g ! Suc (unat u)) \<le> length (edgeList g)"
    using row_end_le [OF ok(1), of "Suc (unat u)"] u by simp
  have "\<not> arrayLength (rowPtr g) - 1 \<le> u"
    using arrayLength_num_nodes [OF ok(1)] u by (simp add: word_le_nat_alt)
  then show ?thesis
    using r1 r2 neighbor_loop_row_count [OF ok refl refl eu, of u "rowPtr g ! unat u" c]
    by (simp add: main_def Let_def nbrs_def)
qed

subsection \<open>The list functions count triangles\<close>

lemma isect_card:
  "sorted_wrt (<) xs \<Longrightarrow> sorted_wrt (<) ys \<Longrightarrow> isect xs ys = card (set xs \<inter> set ys)"
proof (induction xs ys rule: isect.induct)
  case (1 ys)
  then show ?case by simp
next
  case (2 x xs)
  then show ?case by simp
next
  case (3 x xs y ys)
  from "3.prems" have sx: "sorted_wrt (<) xs" and sy: "sorted_wrt (<) ys"
    and gx: "\<forall>z \<in> set xs. x < z" and gy: "\<forall>z \<in> set ys. y < z"
    by simp_all
  show ?case
  proof (cases "x = y")
    case True
    have "set (x # xs) \<inter> set (y # ys) = insert x (set xs \<inter> set ys)"
      using True gx gy by auto
    moreover have "x \<notin> set xs \<inter> set ys"
      using gx by auto
    ultimately show ?thesis
      using True "3.IH"(1) [OF True sx sy] by simp
  next
    case ne: False
    show ?thesis
    proof (cases "x < y")
      case True
      have "set (x # xs) \<inter> set (y # ys) = set xs \<inter> set (y # ys)"
        using True gy by auto
      then show ?thesis
        using ne True "3.IH"(2) [OF ne True sx "3.prems"(2)] by simp
    next
      case False
      have "set (x # xs) \<inter> set (y # ys) = set (x # xs) \<inter> set ys"
        using ne False gx by auto
      then show ?thesis
        using ne False "3.IH"(3) [OF ne False "3.prems"(1) sy] by simp
    qed
  qed
qed

lemma row_count_card:
  assumes "sorted_wrt (<) xs" and "\<forall>v \<in> set xs. sorted_wrt (<) (nbrs g v)"
  shows "row_count g u xs =
           card {(v, w). v \<in> set xs \<and> w \<in> set xs \<and> u < v \<and> v < w \<and> w \<in> set (nbrs g v)}"
  using assms
proof (induction xs)
  case Nil
  then show ?case by simp
next
  case (Cons v rest)
  let ?S = "\<lambda>ys. {(v, w). v \<in> set ys \<and> w \<in> set ys \<and> u < v \<and> v < w \<and> w \<in> set (nbrs g v)}"
  let ?A = "if u < v then (\<lambda>w. (v, w)) ` (set rest \<inter> set (nbrs g v)) else {}"
  from Cons.prems have sr: "sorted_wrt (<) rest" and gv: "\<forall>z \<in> set rest. v < z"
    and sv: "sorted_wrt (<) (nbrs g v)" and sn: "\<forall>v \<in> set rest. sorted_wrt (<) (nbrs g v)"
    by simp_all
  have split: "?S (v # rest) = ?A \<union> ?S rest"
    using gv by (auto split: if_splits)
  have disj: "?A \<inter> ?S rest = {}"
    using gv by (auto split: if_splits)
  have finA: "finite ?A"
    by simp
  have "?S rest \<subseteq> set rest \<times> set rest"
    by auto
  then have finS: "finite (?S rest)"
    by (rule finite_subset) simp
  have cardA: "card ?A = (if v \<le> u then 0 else isect rest (nbrs g v))"
    using isect_card [OF sr sv] by (simp add: card_image inj_on_def)
  have "card (?S (v # rest)) = card ?A + card (?S rest)"
    unfolding split using finA finS disj by (rule card_Un_disjoint)
  then show ?case
    using cardA Cons.IH [OF sr sn] by simp
qed

lemma nbrs_in_range:
  assumes "ids_ok g" and "b \<in> set (nbrs g a)"
  shows "b < numNodes g"
proof -
  from assms(2) obtain e where "e \<in> set (edgeList g)" and "b = unat e"
    by (auto simp: nbrs_def segment_def dest: in_set_takeD in_set_dropD)
  then show ?thesis
    using assms(1) by (simp add: ids_ok_def)
qed

lemma row_count_triangles_at:
  assumes "ids_ok g" and "rows_strict g" and "a < numNodes g"
  shows "row_count g a (nbrs g a) = card (triangles_at g a)"
proof -
  have s: "sorted_wrt (<) (nbrs g a)"
    using assms by (simp add: rows_strict_def)
  have "\<forall>v \<in> set (nbrs g a). sorted_wrt (<) (nbrs g v)"
    using assms nbrs_in_range by (auto simp: rows_strict_def)
  from row_count_card [OF s this, of a]
  have "row_count g a (nbrs g a) =
          card {(v, w). v \<in> set (nbrs g a) \<and> w \<in> set (nbrs g a) \<and> a < v \<and> v < w \<and> w \<in> set (nbrs g v)}" .
  moreover have "{(v, w). v \<in> set (nbrs g a) \<and> w \<in> set (nbrs g a) \<and> a < v \<and> v < w \<and> w \<in> set (nbrs g v)}
                 = triangles_at g a"
    by (auto simp: triangles_at_def edge_def)
  ultimately show ?thesis by simp
qed

lemma finite_triangles_at: "finite (triangles_at g a)"
proof -
  have "triangles_at g a \<subseteq> set (nbrs g a) \<times> set (nbrs g a)"
    by (auto simp: triangles_at_def edge_def)
  then show ?thesis
    by (rule finite_subset) simp
qed

lemma sorted_list_of_three:
  assumes "a < b" and "b < c"
  shows "sorted_list_of_set {a, b, c :: nat} = [a, b, c]"
proof -
  have "sorted_wrt (<) [a, b, c]"
    using assms by simp
  moreover have "sorted_wrt (<) (sorted_list_of_set {a, b, c})"
    by (rule strict_sorted_list_of_set)
  moreover have "set (sorted_list_of_set {a, b, c}) = {a, b, c}"
    by (rule set_sorted_list_of_set) simp
  then have "set (sorted_list_of_set {a, b, c}) = set [a, b, c]"
    by (simp only: list.set) 
  ultimately show ?thesis
    by (rule strict_sorted_equal)
qed

lemma three_set_ordered:
  assumes "card (T :: nat set) = 3"
  obtains a b c where "T = {a, b, c}" and "a < b" and "b < c"
proof -
  have fin: "finite T"
    using assms card.infinite by fastforce
  let ?l = "sorted_list_of_set T"
  have len: "length ?l = Suc (Suc (Suc 0))"
    using assms by simp
  from len obtain a b c where l: "?l = [a, b, c]"
    by (metis length_Suc_conv length_0_conv)
  have "sorted_wrt (<) ?l"
    by (rule strict_sorted_list_of_set)
  with l have "a < b" "b < c"
    by simp_all
  moreover have "T = {a, b, c}"
    using set_sorted_list_of_set [OF fin] l by auto
  ultimately show ?thesis
    using that by blast
qed

lemma triangles_bij:
  assumes "ids_ok g" and "symmetric g"
  shows "bij_betw (\<lambda>(a, b, c). {a, b, c}) (SIGMA a:{..<numNodes g}. triangles_at g a) (triangles g)"
proof (rule bij_betwI')
  fix x y
  assume x: "x \<in> (SIGMA a:{..<numNodes g}. triangles_at g a)"
    and y: "y \<in> (SIGMA a:{..<numNodes g}. triangles_at g a)"
  obtain a b c where xe: "x = (a, b, c)" by (cases x) auto
  obtain a' b' c' where ye: "y = (a', b', c')" by (cases y) auto
  have ox: "a < b" "b < c" using x xe by (auto simp: triangles_at_def)
  have oy: "a' < b'" "b' < c'" using y ye by (auto simp: triangles_at_def)
  show "((case x of (a, b, c) \<Rightarrow> {a, b, c}) = (case y of (a, b, c) \<Rightarrow> {a, b, c})) = (x = y)"
  proof
    assume "(case x of (a, b, c) \<Rightarrow> {a, b, c}) = (case y of (a, b, c) \<Rightarrow> {a, b, c})"
    then have "sorted_list_of_set {a, b, c} = sorted_list_of_set {a', b', c'}"
      using xe ye by simp
    then show "x = y"
      using ox oy xe ye by (simp add: sorted_list_of_three)
  qed simp
next
  fix x
  assume x: "x \<in> (SIGMA a:{..<numNodes g}. triangles_at g a)"
  obtain a b c where xe: "x = (a, b, c)" by (cases x) auto
  from x xe have a: "a < numNodes g" and o: "a < b" "b < c"
    and e: "edge g a b" "edge g a c" "edge g b c"
    by (auto simp: triangles_at_def)
  have b: "b < numNodes g" and c: "c < numNodes g"
    using e assms(1) nbrs_in_range by (auto simp: edge_def)
  have e': "edge g b a" "edge g c a" "edge g c b"
    using e a b c assms(2) by (auto simp: symmetric_def)
  have "card {a, b, c} = 3"
    using o by simp
  then show "(case x of (a, b, c) \<Rightarrow> {a, b, c}) \<in> triangles g"
    using xe a b c e e' by (auto simp: triangles_def)
next
  fix T
  assume "T \<in> triangles g"
  then have sub: "T \<subseteq> {..<numNodes g}" and c3: "card T = 3"
    and ed: "\<forall>u \<in> T. \<forall>v \<in> T. u \<noteq> v \<longrightarrow> edge g u v"
    by (auto simp: triangles_def)
  from c3 obtain a b c where T: "T = {a, b, c}" and o: "a < b" "b < c"
    by (rule three_set_ordered)
  have "(a, b, c) \<in> (SIGMA a:{..<numNodes g}. triangles_at g a)"
    using T o sub ed by (auto simp: triangles_at_def)
  then show "\<exists>x \<in> (SIGMA a:{..<numNodes g}. triangles_at g a). T = (case x of (a, b, c) \<Rightarrow> {a, b, c})"
    using T by (intro bexI [of _ "(a, b, c)"]) simp_all
qed

lemma sum_triangles_at:
  assumes "ids_ok g" and "symmetric g"
  shows "(\<Sum>a < numNodes g. card (triangles_at g a)) = card (triangles g)"
proof -
  have "(\<Sum>a < numNodes g. card (triangles_at g a)) = card (SIGMA a:{..<numNodes g}. triangles_at g a)"
    by (simp add: finite_triangles_at)
  also have "\<dots> = card (triangles g)"
    using triangles_bij [OF assms] by (rule bij_betw_same_card)
  finally show ?thesis .
qed

subsection \<open>Binary search\<close>

lemma segment_split: "s \<le> m \<Longrightarrow> m \<le> e \<Longrightarrow> segment xs s e = segment xs s m @ segment xs m e"
proof -
  assume a: "s \<le> m" "m \<le> e"
  then have "e - s = (m - s) + (e - m)"
    by simp
  then have "take (e - s) (drop s xs) = take (m - s) (drop s xs) @ take (e - m) (drop (m - s) (drop s xs))"
    by (simp only: take_add)
  then show ?thesis
    using a by (simp add: segment_def)
qed

lemma unat_mid:
  assumes "unat (s::u32) < unat (e::u32)"
  shows "unat (s + (e - s) div 2) = unat s + (unat e - unat s) div 2"
proof -
  have eb: "unat e < 2 ^ 32"
    using unsigned_less [of e] by simp
  have "unat (e - s) = unat e - unat s"
    using assms by (simp add: unat_sub_if_size)
  then have d: "unat ((e - s) div 2) = (unat e - unat s) div 2"
    by (simp add: unat_div)
  have "unat s + unat ((e - s) div 2) < 2 ^ LENGTH(32)"
    using assms eb d by simp
  then have "unat (s + (e - s) div 2) = unat s + unat ((e - s) div 2)"
    by (simp only: unat_add_lem)
  then show ?thesis
    using d by simp
qed

lemma is_neighbor_loop_correct:
  "unat en \<le> length el \<Longrightarrow> sorted_wrt (<) (segment el (unat start) (unat en)) \<Longrightarrow>
   is_neighbor_loop el sv start en = Some (sv \<in> set (segment el (unat start) (unat en)))"
proof (induction el sv start en rule: is_neighbor_loop.induct)
  case (1 el sv start en)
  show ?case
  proof (cases "start < en")
    case False
    then have "unat en \<le> unat start"
      by (simp add: word_less_nat_alt)
    then have "segment el (unat start) (unat en) = []"
      by (simp add: segment_empty)
    with False show ?thesis
      by (subst is_neighbor_loop.simps) simp
  next
    case True
    then have lt: "unat start < unat en"
      by (simp add: word_less_nat_alt)
    define mid where "mid = start + (en - start) div 2"
    have um: "unat mid = unat start + (unat en - unat start) div 2"
      unfolding mid_def using lt by (rule unat_mid)
    have m1: "unat start \<le> unat mid" and m2: "unat mid < unat en"
      using um lt by simp_all
    have sm: "unat (mid + 1) = Suc (unat mid)"
      using m2 by (rule unat_suc_lt)
    have rm: "rd el mid = Some (el ! unat mid)"
      using m2 "1.prems"(1) by (simp add: rd_Some)
    let ?val = "el ! unat mid"
    let ?lo = "segment el (unat start) (unat mid)" and ?hi = "segment el (Suc (unat mid)) (unat en)"
    have "segment el (unat start) (unat en) = ?lo @ segment el (unat mid) (unat en)"
      using m1 m2 by (intro segment_split) simp_all
    also have "segment el (unat mid) (unat en) = ?val # ?hi"
      using m2 "1.prems"(1) by (simp add: segment_Cons)
    finally have sp: "segment el (unat start) (unat en) = ?lo @ ?val # ?hi" .
    from "1.prems"(2) have slo: "sorted_wrt (<) ?lo" and shi: "sorted_wrt (<) ?hi"
      and blo: "\<forall>x \<in> set ?lo. x < ?val" and bhi: "\<forall>x \<in> set ?hi. ?val < x"
      unfolding sp by (auto simp: sorted_wrt_append)
    consider (eq) "?val = sv" | (lt) "?val \<noteq> sv" "?val < sv" | (gt) "?val \<noteq> sv" "\<not> ?val < sv"
      by blast
    then show ?thesis
    proof cases
      case eq
      have "is_neighbor_loop el sv start en = Some True"
        using True rm eq by (subst is_neighbor_loop.simps) (simp add: mid_def [symmetric])
      then show ?thesis
        using eq by (simp add: sp)
    next
      case lt
      have "is_neighbor_loop el sv start en = is_neighbor_loop el sv (mid + 1) en"
        using True rm lt by (subst is_neighbor_loop.simps) (simp add: mid_def [symmetric])
      also have "\<dots> = Some (sv \<in> set ?hi)"
        using "1.IH"(1) [OF True mid_def rm lt(1) lt(2) "1.prems"(1)] shi sm by simp
      finally show ?thesis
        using lt blo by (auto simp: sp)
    next
      case gt
      have le: "unat mid \<le> length el"
        using m2 "1.prems"(1) by simp
      have "is_neighbor_loop el sv start en = is_neighbor_loop el sv start mid"
        using True rm gt by (subst is_neighbor_loop.simps) (simp add: mid_def [symmetric])
      also have "\<dots> = Some (sv \<in> set ?lo)"
        using "1.IH"(2) [OF True mid_def rm gt(1) gt(2) le] slo by simp
      finally show ?thesis
        using gt bhi by (auto simp: sp)
    qed
  qed
qed

subsection \<open>A dispatch\<close>

lemma main_task:
  assumes "rowPtr_ok g" and "ids_ok g" and "rows_strict g"
  shows "main (rowPtr g) (edgeList g) t c =
           Some (c + of_nat (if unat t < numNodes g then card (triangles_at g (unat t)) else 0))"
proof (cases "unat t < numNodes g")
  case True
  then show ?thesis
    using main_row_count [OF assms(1,2) True, of c] row_count_triangles_at [OF assms(2,3) True]
    by simp
next
  case False
  then show ?thesis
    using main_out_of_range [OF assms(1), of t c] by simp
qed

lemma run_tasks_sum:
  assumes "rowPtr_ok g" and "ids_ok g" and "rows_strict g"
  shows "run_tasks (rowPtr g) (edgeList g) ts c =
           Some (c + of_nat (\<Sum>t\<leftarrow>ts. if unat t < numNodes g then card (triangles_at g (unat t)) else 0))"
proof (induction ts arbitrary: c)
  case Nil
  then show ?case by simp
next
  case (Cons t ts)
  show ?case
    by (simp add: main_task [OF assms] Cons.IH add.assoc)
qed

lemma sum_list_perm:
  fixes f :: "'a \<Rightarrow> nat"
  assumes "mset ts = mset ts'"
  shows "sum_list (map f ts) = sum_list (map f ts')"
proof -
  have "mset (map f ts) = mset (map f ts')"
    using assms by simp
  then have "sum_mset (mset (map f ts)) = sum_mset (mset (map f ts'))"
    by (rule arg_cong)
  then show ?thesis
    by (simp only: sum_mset_sum_list)
qed

lemma grid_sum:
  assumes "n \<le> k * wg" and "k * wg \<le> 2 ^ 32"
  shows "(\<Sum>t\<leftarrow>grid wg k. if unat t < n then f (unat t) else 0) = (\<Sum>a < n. (f a :: nat))"
proof -
  have "map (\<lambda>t. if unat t < n then f (unat t) else 0) (grid wg k)
          = map (\<lambda>a. if a < n then f a else 0) [0..<k * wg]"
    unfolding grid_def map_map
  proof (rule map_cong [OF refl])
    fix a
    assume "a \<in> set [0..<k * wg]"
    then have "a < 2 ^ 32"
      using assms(2) by simp
    then have "unat (of_nat a :: u32) = a"
      by (simp add: unat_of_nat)
    then show "((\<lambda>t :: u32. if unat t < n then f (unat t) else 0) \<circ> of_nat) a = (if a < n then f a else 0)"
      by simp
  qed
  then have "(\<Sum>t\<leftarrow>grid wg k. if unat t < n then f (unat t) else 0)
               = (\<Sum>a\<leftarrow>[0..<k * wg]. if a < n then f a else 0)"
    by simp
  also have "\<dots> = (\<Sum>a \<in> {0..<k * wg}. if a < n then f a else 0)"
    by (simp add: interv_sum_list_conv_sum_set_nat)
  also have "\<dots> = (\<Sum>a \<in> {0..<k * wg} \<inter> {a. a < n}. f a)"
    by (simp add: sum.inter_restrict)
  also have "{0..<k * wg} \<inter> {a. a < n} = {..<n}"
    using assms(1) by auto
  finally show ?thesis .
qed

lemma ceil_div_ge:
  assumes "0 < wg"
  shows "n \<le> ceil_div n wg * wg"
proof -
  define q r where "q = n div wg" and "r = n mod wg"
  have e: "n = q * wg + r"
    by (simp add: q_def r_def)
  have l: "r < wg"
    using assms by (simp add: r_def)
  have "ceil_div n wg * wg = (if r = 0 then q * wg else q * wg + wg)"
    by (simp add: ceil_div_def q_def r_def)
  then show ?thesis
    using e l by (simp split: if_splits)
qed

lemma ceil_div_le:
  assumes "0 < wg" and "n \<le> m" and "wg dvd m"
  shows "ceil_div n wg * wg \<le> m"
proof -
  from assms(3) obtain p where m: "m = p * wg"
    by (auto simp: dvd_def mult.commute)
  define q r where "q = n div wg" and "r = n mod wg"
  have e: "n = q * wg + r"
    by (simp add: q_def r_def)
  have c: "ceil_div n wg * wg = (if r = 0 then q * wg else Suc q * wg)"
    by (simp add: ceil_div_def q_def r_def)
  show ?thesis
  proof (cases "r = 0")
    case True
    have "ceil_div n wg * wg = q * wg"
      by (simp add: c True)
    moreover have "q * wg \<le> m"
      using e True assms(2) by simp
    ultimately show ?thesis
      by (simp only:)
  next
    case False
    have "q < p"
    proof (rule ccontr)
      assume "\<not> q < p"
      then have "p * wg \<le> q * wg"
        by simp
      then show False
        using e False assms(2) m by linarith
    qed
    then have "Suc q \<le> p"
      by simp
    then have "Suc q * wg \<le> p * wg"
      by (rule mult_le_mono1)
    moreover have "ceil_div n wg * wg = Suc q * wg"
      by (simp only: c False if_False)
    ultimately show ?thesis
      using m by (simp only:)
  qed
qed

lemma grid_256_fits:
  assumes "n + 1 < 2 ^ 32"
  shows "ceil_div n workgroupSize * workgroupSize \<le> 2 ^ 32"
proof -
  have "(256::nat) dvd 2 ^ 32"
    by simp
  then show ?thesis
    using assms by (intro ceil_div_le) (simp_all add: workgroupSize_def)
qed

subsection \<open>Invocations past the last node\<close>

lemma rows_strict_code [code]:
  "rows_strict g = list_all (\<lambda>i. sorted_wrt (<) (nbrs g i)) [0..<numNodes g]"
  by (auto simp: rows_strict_def list_all_iff)

lemma no_self_code [code]:
  "no_self g = list_all (\<lambda>i. \<not> edge g i i) [0..<numNodes g]"
  by (auto simp: no_self_def list_all_iff)

lemma symmetric_code [code]:
  "symmetric g = list_all (\<lambda>u. list_all (\<lambda>v. edge g u v = edge g v u) [0..<numNodes g]) [0..<numNodes g]"
  by (auto simp: symmetric_def list_all_iff)

lemma main_noop:
  assumes "length row_ptr = n + 1" and "n + 1 < 2 ^ 32" and "n \<le> unat u"
  shows "main row_ptr edge_list u c = Some c"
proof -
  have "arrayLength row_ptr - 1 = (of_nat n :: u32)"
    using assms(1) by (simp add: arrayLength_def)
  moreover have "n < 2 ^ 32"
    using assms(2) by simp
  ultimately have "unat (arrayLength row_ptr - 1) = n"
    by (simp add: unat_of_nat)
  then show ?thesis
    using assms(3) by (simp add: main_def Let_def word_le_nat_alt)
qed

lemma run_tasks_append:
  "run_tasks rp el (xs @ ys) c =
     (case run_tasks rp el xs c of None \<Rightarrow> None | Some c' \<Rightarrow> run_tasks rp el ys c')"
  by (induction xs arbitrary: c) (auto split: option.splits)

lemma run_tasks_noop:
  assumes "length rp = n + 1" and "n + 1 < 2 ^ 32" and "\<forall>t \<in> set ts. n \<le> unat t"
  shows "run_tasks rp el ts c = Some c"
  using assms(3)
  by (induction ts) (simp_all add: main_noop [OF assms(1,2)])

lemma grid_padding:
  assumes "length rp = n + 1" and "n + 1 < 2 ^ 32" and "n \<le> k * wg" and "k * wg \<le> 2 ^ 32"
  shows "run_tasks rp el (grid wg k) c = run_tasks rp el (map of_nat [0..<n]) c"
proof -
  have "[0..<k * wg] = [0..<n] @ [n..<k * wg]"
    using assms(3) by (metis le_add_diff_inverse upt_add_eq_append zero_le)
  then have g: "grid wg k = map of_nat [0..<n] @ map of_nat [n..<k * wg]"
    by (simp add: grid_def)
  have "\<forall>t \<in> set (map of_nat [n..<k * wg] :: u32 list). n \<le> unat t"
  proof
    fix t :: u32
    assume "t \<in> set (map of_nat [n..<k * wg])"
    then obtain a where a: "t = of_nat a" "n \<le> a" "a < k * wg"
      by auto
    then have "a < 2 ^ 32"
      using assms(4) by simp
    then have "unat (of_nat a :: u32) = a"
      by (simp add: unat_of_nat)
    then show "n \<le> unat t"
      using a by simp
  qed
  then have "run_tasks rp el (map of_nat [n..<k * wg]) c' = Some c'" for c'
    by (rule run_tasks_noop [OF assms(1,2)])
  then show ?thesis
    by (simp add: g run_tasks_append split: option.splits)
qed

text \<open>
  Claim C4. With \<open>rowPtr\<close> of length \<open>numNodes + 1\<close>, an invocation whose id is
  \<open>numNodes\<close> or more returns at the guard: it reads no entry of either buffer and leaves
  the counter as it was. So a grid of \<open>k\<close> workgroups of any size \<open>wg\<close> that covers the
  nodes ends with the same counter as one invocation per node, the dispatch of
  \<open>runTriangleCounting\<close> among them, and a graph without nodes has the count 0.
\<close>

theorem padded_grid_noop:
  assumes "length (rowPtr g) = numNodes g + 1" and "numNodes g + 1 < 2 ^ 32"
  shows "(\<forall>u c. numNodes g \<le> unat u \<longrightarrow> main (rowPtr g) (edgeList g) u c = Some c) \<and>
         (\<forall>wg k c. numNodes g \<le> k * wg \<and> k * wg \<le> 2 ^ 32 \<longrightarrow>
            run_tasks (rowPtr g) (edgeList g) (grid wg k) c =
            run_tasks (rowPtr g) (edgeList g) (map of_nat [0..<numNodes g]) c) \<and>
         runTriangleCounting g = run_tasks (rowPtr g) (edgeList g) (map of_nat [0..<numNodes g]) 0 \<and>
         (numNodes g = 0 \<longrightarrow> runTriangleCounting g = Some 0)"
proof -
  have a: "main (rowPtr g) (edgeList g) u c = Some c" if "numNodes g \<le> unat u" for u c
    using assms that by (rule main_noop)
  have b: "run_tasks (rowPtr g) (edgeList g) (grid wg k) c =
           run_tasks (rowPtr g) (edgeList g) (map of_nat [0..<numNodes g]) c"
    if "numNodes g \<le> k * wg" "k * wg \<le> 2 ^ 32" for wg k c
    using assms that by (rule grid_padding)
  have c: "runTriangleCounting g = run_tasks (rowPtr g) (edgeList g) (map of_nat [0..<numNodes g]) 0"
    unfolding runTriangleCounting_def
    using assms
  proof (rule grid_padding)
    show "numNodes g \<le> ceil_div (numNodes g) workgroupSize * workgroupSize"
      by (rule ceil_div_ge) (simp add: workgroupSize_def)
    show "ceil_div (numNodes g) workgroupSize * workgroupSize \<le> 2 ^ 32"
      using assms(2) by (rule grid_256_fits)
  qed
  have d: "runTriangleCounting g = Some 0" if "numNodes g = 0"
    using c that by simp
  show ?thesis
    using a b c d by blast
qed

theorem padded_grid_noop_witness:
  "length (rowPtr (csr_of_lines [js ''0 1'', js ''1 2'', js ''0 2''])) = numNodes (csr_of_lines [js ''0 1'', js ''1 2'', js ''0 2'']) + 1 \<and>
   numNodes (csr_of_lines [js ''0 1'', js ''1 2'', js ''0 2'']) + 1 < 2 ^ 32 \<and>
   main (rowPtr (csr_of_lines [js ''0 1'', js ''1 2'', js ''0 2''])) (edgeList (csr_of_lines [js ''0 1'', js ''1 2'', js ''0 2''])) 3 7 = Some 7 \<and>
   runTriangleCounting (csr_of_lines [js ''0 1'', js ''1 2'', js ''0 2'']) =
     run_tasks (rowPtr (csr_of_lines [js ''0 1'', js ''1 2'', js ''0 2''])) (edgeList (csr_of_lines [js ''0 1'', js ''1 2'', js ''0 2''])) (map of_nat [0..<3]) 0"
proof -
  have n: "numNodes (csr_of_lines [js ''0 1'', js ''1 2'', js ''0 2'']) = 3"
    by code_simp
  have l: "length (rowPtr (csr_of_lines [js ''0 1'', js ''1 2'', js ''0 2''])) = numNodes (csr_of_lines [js ''0 1'', js ''1 2'', js ''0 2'']) + 1"
    by code_simp
  have b: "numNodes (csr_of_lines [js ''0 1'', js ''1 2'', js ''0 2'']) + 1 < 2 ^ 32"
    by (simp add: n)
  show ?thesis
    using padded_grid_noop [OF l b] l b n by simp
qed

text \<open>
  Claim C10. Where the sub-list \<open>edge_list[row_ptr[node] .. row_ptr[node + 1])\<close> lies inside
  \<open>edge_list\<close> and increases strictly, \<open>is_neighbor\<close> returns, reads inside the buffers
  only, and answers whether \<open>searchValue\<close> is in the sub-list.
\<close>

theorem is_neighbor_correct:
  assumes "Suc (unat node) < length row_ptr" and "length row_ptr \<le> 2 ^ 32"
    and "unat (row_ptr ! Suc (unat node)) \<le> length edge_list"
    and "sorted_wrt (<) (segment edge_list (unat (row_ptr ! unat node)) (unat (row_ptr ! Suc (unat node))))"
  shows "is_neighbor row_ptr edge_list node searchValue =
           Some (searchValue \<in> set (segment edge_list (unat (row_ptr ! unat node))
                                      (unat (row_ptr ! Suc (unat node)))))"
proof -
  have s: "unat (node + 1) = Suc (unat node)"
    using assms(1,2) by (intro unat_suc_bound [of _ "length row_ptr - 1"]) simp_all
  have r1: "rd row_ptr node = Some (row_ptr ! unat node)"
    using assms(1) by (simp add: rd_Some)
  have r2: "rd row_ptr (node + 1) = Some (row_ptr ! Suc (unat node))"
    using assms(1) s by (simp add: rd_def)
  show ?thesis
    using r1 r2 is_neighbor_loop_correct [OF assms(3,4)] by (simp add: is_neighbor_def)
qed

theorem is_neighbor_correct_witness:
  "Suc (unat (1::u32)) < length [0, 2, 4, 6 :: u32] \<and> length [0, 2, 4, 6 :: u32] \<le> 2 ^ 32 \<and>
   unat ([0, 2, 4, 6 :: u32] ! Suc (unat (1::u32))) \<le> length [1, 2, 0, 2, 0, 1 :: u32] \<and>
   sorted_wrt (<) (segment [1, 2, 0, 2, 0, 1 :: u32] (unat ([0, 2, 4, 6 :: u32] ! unat (1::u32)))
                    (unat ([0, 2, 4, 6 :: u32] ! Suc (unat (1::u32))))) \<and>
   is_neighbor [0, 2, 4, 6] [1, 2, 0, 2, 0, 1] 1 2 = Some True \<and>
   is_neighbor [0, 2, 4, 6] [1, 2, 0, 2, 0, 1] 1 1 = Some False"
proof -
  have a: "Suc (unat (1::u32)) < length [0, 2, 4, 6 :: u32]"
    by simp
  have b: "length [0, 2, 4, 6 :: u32] \<le> 2 ^ 32"
    by simp
  have c: "unat ([0, 2, 4, 6 :: u32] ! Suc (unat (1::u32))) \<le> length [1, 2, 0, 2, 0, 1 :: u32]"
    by simp
  have d: "sorted_wrt (<) (segment [1, 2, 0, 2, 0, 1 :: u32] (unat ([0, 2, 4, 6 :: u32] ! unat (1::u32)))
                    (unat ([0, 2, 4, 6 :: u32] ! Suc (unat (1::u32)))))"
    by (simp add: segment_def)
  show ?thesis
    using is_neighbor_correct [OF a b c d, of 2] is_neighbor_correct [OF a b c d, of 1] a b c d
    by (simp add: segment_def)
qed

subsection \<open>The count of a dispatch\<close>

lemma schedule_total:
  assumes ok: "csr_ok g" and cover: "numNodes g \<le> k * wg" "k * wg \<le> 2 ^ 32"
    and perm: "mset ts = mset (grid wg k)"
  shows "run_tasks (rowPtr g) (edgeList g) ts 0 = Some (of_nat (card (triangles g)))"
proof -
  from ok have r: "rowPtr_ok g" and i: "ids_ok g" and s: "rows_strict g" and y: "symmetric g"
    by (simp_all add: csr_ok_def)
  let ?f = "\<lambda>t :: u32. if unat t < numNodes g then card (triangles_at g (unat t)) else 0"
  have "sum_list (map ?f ts) = sum_list (map ?f (grid wg k))"
    using perm by (rule sum_list_perm)
  also have "\<dots> = (\<Sum>a < numNodes g. card (triangles_at g a))"
    using cover by (rule grid_sum)
  also have "\<dots> = card (triangles g)"
    using i y by (rule sum_triangles_at)
  finally show ?thesis
    by (simp add: run_tasks_sum [OF r i s])
qed

lemma greater_nth_drop:
  assumes "sorted_wrt (<) (xs :: nat list)" and "k < length xs"
  shows "set (drop (Suc k) xs) = {x \<in> set xs. xs ! k < x}"
proof -
  have sp: "xs = take k xs @ xs ! k # drop (Suc k) xs"
    using assms(2) by (rule id_take_nth_drop)
  have "sorted_wrt (<) (take k xs @ xs ! k # drop (Suc k) xs)"
    using assms(1) sp by simp
  then have lo: "\<forall>x \<in> set (take k xs). x < xs ! k" and hi: "\<forall>x \<in> set (drop (Suc k) xs). xs ! k < x"
    by (auto simp: sorted_wrt_append)
  have "set xs = set (take k xs @ xs ! k # drop (Suc k) xs)"
    using sp by simp
  then have "set xs = set (take k xs) \<union> {xs ! k} \<union> set (drop (Suc k) xs)"
    by (simp only: set_append list.set) auto
  then show ?thesis
    using lo hi by fastforce
qed

lemma segment_suffix:
  assumes "s \<le> i"
  shows "segment xs (Suc i) e = drop (Suc (i - s)) (segment xs s e)"
proof -
  have "drop (Suc (i - s)) (take (e - s) (drop s xs)) = take (e - s - Suc (i - s)) (drop (Suc (i - s)) (drop s xs))"
    by (rule drop_take)
  moreover have "e - s - Suc (i - s) = e - Suc i" and "Suc (i - s) + s = Suc i"
    using assms by simp_all
  ultimately show ?thesis
    by (simp add: segment_def)
qed

lemma segment_nth:
  assumes "s \<le> i" and "i < e" and "e \<le> length xs"
  shows "segment xs s e ! (i - s) = xs ! i" and "i - s < length (segment xs s e)"
  using assms by (simp_all add: segment_def)

lemma merge_join_position:
  assumes ok: "csr_ok g" and a: "a < numNodes g"
    and i: "unat (rowPtr g ! a) \<le> i" "i < unat (rowPtr g ! Suc a)"
    and b: "a < unat (edgeList g ! i)"
  shows "merge_join (edgeList g) (rowPtr g ! Suc a) (rowPtr g ! Suc (unat (edgeList g ! i)))
           (of_nat i + 1) (rowPtr g ! unat (edgeList g ! i)) c =
         Some (c + of_nat (card {w. (unat (edgeList g ! i), w) \<in> triangles_at g a}))"
proof -
  let ?el = "edgeList g" and ?rp = "rowPtr g"
  let ?b = "unat (?el ! i)"
  let ?s = "unat (?rp ! a)" and ?e = "unat (?rp ! Suc a)"
  from ok have r: "rowPtr_ok g" and ids: "ids_ok g" and st: "rows_strict g"
    by (simp_all add: csr_ok_def)
  have eu: "?e \<le> length ?el"
    using row_end_le [OF r, of "Suc a"] a by simp
  have il: "i < length ?el"
    using i eu by simp
  then have bn: "?b < numNodes g"
    using ids by (simp add: ids_ok_def)
  have ev: "unat (?rp ! Suc ?b) \<le> length ?el"
    using row_end_le [OF r, of "Suc ?b"] bn by simp
  have "unat (?rp ! Suc a) < 2 ^ 32"
    using unsigned_less [of "?rp ! Suc a"] by simp
  then have "i < 2 ^ 32"
    using i(2) by simp
  then have ui: "unat (of_nat i :: u32) = i"
    by (rule unat_of_nat_small)
  then have "unat (of_nat i :: u32) < unat (?rp ! Suc a)"
    using i(2) by simp
  then have "unat (of_nat i + 1 :: u32) = Suc (unat (of_nat i :: u32))"
    by (rule unat_suc_lt)
  then have us: "unat (of_nat i + 1 :: u32) = Suc i"
    using ui by simp
  let ?xs = "nbrs g a"
  have sx: "sorted_wrt (<) ?xs" and sb: "sorted_wrt (<) (nbrs g ?b)"
    using st a bn by (simp_all add: rows_strict_def)
  have k: "i - ?s < length ?xs" and xk: "?xs ! (i - ?s) = ?b"
    using segment_nth [OF i eu] by (simp_all add: nbrs_def)
  have suf: "map unat (segment ?el (Suc i) ?e) = drop (Suc (i - ?s)) ?xs"
    using segment_suffix [OF i(1), of ?el ?e] by (simp add: nbrs_def drop_map)
  have "merge_join ?el (?rp ! Suc a) (?rp ! Suc ?b) (of_nat i + 1) (?rp ! ?b) c =
      Some (c + of_nat (isect (drop (Suc (i - ?s)) ?xs) (nbrs g ?b)))"
    using merge_join_isect [OF eu ev, of "of_nat i + 1" "?rp ! ?b" c]
    by (simp add: us suf nbrs_def)
  also have "isect (drop (Suc (i - ?s)) ?xs) (nbrs g ?b) = card (set (drop (Suc (i - ?s)) ?xs) \<inter> set (nbrs g ?b))"
    using sx sb by (intro isect_card sorted_wrt_drop)
  also have "set (drop (Suc (i - ?s)) ?xs) = {x \<in> set ?xs. ?b < x}"
    using greater_nth_drop [OF sx k] xk by simp
  also have "{x \<in> set ?xs. ?b < x} \<inter> set (nbrs g ?b) = {w. (?b, w) \<in> triangles_at g a}"
    using b xk k by (auto simp: triangles_at_def edge_def dest: nth_mem)
  finally show ?thesis .
qed

text \<open>
  Claim C1, with the width of the counter. For a graph with the invariants of the CSR
  graph, the dispatch of \<open>runTriangleCounting\<close>, and every grid that covers the nodes run
  in any order \<open>ts\<close>, leaves in the counter the number of triangles reduced modulo
  \<open>2 ^ 32\<close> (the number itself when it is below \<open>2 ^ 32\<close>). The invocation for node \<open>a\<close>
  adds the number of triangles whose least node is \<open>a\<close>; there, the merge-join started
  just past the position \<open>i\<close> of a neighbour \<open>b > a\<close> adds the number of nodes \<open>c\<close> that
  make the triangle \<open>a < b < c\<close>; and every triangle \<open>{a, b, c}\<close> with \<open>a < b < c\<close> is the
  pair \<open>(b, c)\<close> of exactly one node \<open>a\<close>.
\<close>

theorem kernel_counts_triangles:
  assumes "csr_ok g"
  shows "runTriangleCounting g = Some (of_nat (card (triangles g))) \<and>
         (\<forall>wg k ts. numNodes g \<le> k * wg \<and> k * wg \<le> 2 ^ 32 \<and> mset ts = mset (grid wg k) \<longrightarrow>
            run_tasks (rowPtr g) (edgeList g) ts 0 = Some (of_nat (card (triangles g)))) \<and>
         (\<forall>a c. a < numNodes g \<longrightarrow>
            main (rowPtr g) (edgeList g) (of_nat a) c = Some (c + of_nat (card (triangles_at g a)))) \<and>
         (\<forall>a i c. a < numNodes g \<and> unat (rowPtr g ! a) \<le> i \<and> i < unat (rowPtr g ! Suc a) \<and>
              a < unat (edgeList g ! i) \<longrightarrow>
            merge_join (edgeList g) (rowPtr g ! Suc a) (rowPtr g ! Suc (unat (edgeList g ! i)))
              (of_nat i + 1) (rowPtr g ! unat (edgeList g ! i)) c =
            Some (c + of_nat (card {w. (unat (edgeList g ! i), w) \<in> triangles_at g a}))) \<and>
         bij_betw (\<lambda>(a, b, c). {a, b, c}) (SIGMA a:{..<numNodes g}. triangles_at g a) (triangles g)"
proof -
  from assms have r: "rowPtr_ok g" and i: "ids_ok g" and s: "rows_strict g" and y: "symmetric g"
    by (simp_all add: csr_ok_def)
  have n: "numNodes g + 1 < 2 ^ 32"
    using r by (simp add: rowPtr_ok_def)
  have "runTriangleCounting g = Some (of_nat (card (triangles g)))"
    unfolding runTriangleCounting_def using assms
  proof (rule schedule_total)
    show "numNodes g \<le> ceil_div (numNodes g) workgroupSize * workgroupSize"
      by (rule ceil_div_ge) (simp add: workgroupSize_def)
    show "ceil_div (numNodes g) workgroupSize * workgroupSize \<le> 2 ^ 32"
      using n by (rule grid_256_fits)
  qed simp
  moreover have "run_tasks (rowPtr g) (edgeList g) ts 0 = Some (of_nat (card (triangles g)))"
    if "numNodes g \<le> k * wg" "k * wg \<le> 2 ^ 32" "mset ts = mset (grid wg k)" for wg k ts
    using assms that by (rule schedule_total)
  moreover have "main (rowPtr g) (edgeList g) (of_nat a) c = Some (c + of_nat (card (triangles_at g a)))"
    if "a < numNodes g" for a c
  proof -
    have "unat (of_nat a :: u32) = a"
      using that n by (simp add: unat_of_nat)
    then show ?thesis
      using main_task [OF r i s, of "of_nat a" c] that by simp
  qed
  moreover have "merge_join (edgeList g) (rowPtr g ! Suc a) (rowPtr g ! Suc (unat (edgeList g ! i)))
              (of_nat i + 1) (rowPtr g ! unat (edgeList g ! i)) c =
            Some (c + of_nat (card {w. (unat (edgeList g ! i), w) \<in> triangles_at g a}))"
    if "a < numNodes g \<and> unat (rowPtr g ! a) \<le> i \<and> i < unat (rowPtr g ! Suc a) \<and>
        a < unat (edgeList g ! i)" for a i c
    using assms that by (intro merge_join_position) blast+
  moreover have "bij_betw (\<lambda>(a, b, c). {a, b, c}) (SIGMA a:{..<numNodes g}. triangles_at g a) (triangles g)"
    using i y by (rule triangles_bij)
  ultimately show ?thesis
    by blast
qed

lemma single_triangle_csr:
  "csr_of_lines [js ''0 1'', js ''1 2'', js ''0 2''] =
     \<lparr>numNodes = 3, rowPtr = [0, 2, 4, 6], edgeList = [1, 2, 0, 2, 0, 1]\<rparr>"
  by code_simp

lemma single_triangle_ok: "csr_ok (csr_of_lines [js ''0 1'', js ''1 2'', js ''0 2''])"
proof -
  have "rowPtr_ok (csr_of_lines [js ''0 1'', js ''1 2'', js ''0 2''])"
    unfolding single_triangle_csr by (simp add: rowPtr_ok_def)
  moreover have "ids_ok (csr_of_lines [js ''0 1'', js ''1 2'', js ''0 2''])"
    by code_simp
  moreover have "rows_strict (csr_of_lines [js ''0 1'', js ''1 2'', js ''0 2''])"
    by code_simp
  moreover have "no_self (csr_of_lines [js ''0 1'', js ''1 2'', js ''0 2''])"
    by code_simp
  moreover have "symmetric (csr_of_lines [js ''0 1'', js ''1 2'', js ''0 2''])"
    by code_simp
  ultimately show ?thesis
    by (simp add: csr_ok_def)
qed

theorem kernel_counts_triangles_witness:
  "csr_ok (csr_of_lines [js ''0 1'', js ''1 2'', js ''0 2'']) \<and>
   runTriangleCounting (csr_of_lines [js ''0 1'', js ''1 2'', js ''0 2'']) =
     Some (of_nat (card (triangles (csr_of_lines [js ''0 1'', js ''1 2'', js ''0 2''])))) \<and>
   runTriangleCounting (csr_of_lines [js ''0 1'', js ''1 2'', js ''0 2'']) = Some 1"
proof -
  have one: "runTriangleCounting (csr_of_lines [js ''0 1'', js ''1 2'', js ''0 2'']) = Some 1"
    by code_simp
  show ?thesis
    using kernel_counts_triangles [OF single_triangle_ok] single_triangle_ok one by simp
qed

section \<open>The builder produces a CSR graph\<close>

subsection \<open>The state after the records\<close>

lemma set_set_add: "set (set_add x xs) = insert x (set xs)"
  by (auto simp: set_add_def)

lemma distinct_set_add: "distinct (set_add x xs) = distinct xs"
  by (simp add: set_add_def)

lemma ensure_key_apply: "ensure_key u m k = (if k = u \<and> m u = None then Some [] else m k)"
  by (simp add: ensure_key_def)

lemma adj_add_apply: "adj_add u v m k = (if k = u then map_option (set_add v) (m u) else m k)"
  by (simp add: adj_add_def split: option.splits)

lemma fold_add_line: "fold add_line ls st = fold (\<lambda>(u, v). add_edge u v) (parsed ls) st"
proof (induction ls arbitrary: st)
  case Nil
  then show ?case by (simp add: parsed_def)
next
  case (Cons l ls)
  then show ?case
    by (cases "parse_line l") (auto simp: parsed_def add_line_def)
qed

lemma node_ids_snoc: "node_ids (ps @ [(u, v)]) = insert u (insert v (node_ids ps))"
  by (auto simp: node_ids_def)

lemma nbr_ids_snoc:
  "nbr_ids (ps @ [(u, v)]) k =
     nbr_ids ps k \<union> (if u \<noteq> v \<and> k = u then {v} else {}) \<union> (if u \<noteq> v \<and> k = v then {u} else {})"
  by (auto simp: nbr_ids_def)

lemma state_of_add_edge:
  assumes "state_of ps st"
  shows "state_of (ps @ [(u, v)]) (add_edge u v st)"
proof -
  from assms have d: "distinct (allNodeIds st)" and s: "set (allNodeIds st) = node_ids ps"
    and n: "\<And>k. (adj st k = None) = (k \<notin> node_ids ps)"
    and a: "\<And>k s. adj st k = Some s \<Longrightarrow> distinct s \<and> set s = nbr_ids ps k"
    by (auto simp: state_of_def)
  have e: "nbr_ids ps k = {}" if "k \<notin> node_ids ps" for k
    using that by (force simp: nbr_ids_def node_ids_def)
  show ?thesis
    unfolding state_of_def
  proof (intro conjI allI impI)
    show "distinct (allNodeIds (add_edge u v st))"
      using d by (simp add: add_edge_def Let_def distinct_set_add)
    show "set (allNodeIds (add_edge u v st)) = node_ids (ps @ [(u, v)])"
      using s by (auto simp: add_edge_def Let_def set_set_add node_ids_snoc)
    show "(adj (add_edge u v st) k = None) = (k \<notin> node_ids (ps @ [(u, v)]))" for k
      using n [of k] n [of u] n [of v]
      by (auto simp: add_edge_def Let_def adj_add_apply ensure_key_apply node_ids_snoc)
  next
    fix k s
    assume "adj (add_edge u v st) k = Some s"
    then show "distinct s" and "set s = nbr_ids (ps @ [(u, v)]) k"
      using a [of k] n [of k] e [of k]
      by (auto simp: add_edge_def Let_def adj_add_apply ensure_key_apply nbr_ids_snoc
          distinct_set_add set_set_add split: if_splits)
  qed
qed

lemma state_of_fold: "state_of ps (fold (\<lambda>(u, v). add_edge u v) ps init_state)"
proof (induction ps rule: rev_induct)
  case Nil
  show ?case
    by (simp add: state_of_def init_state_def node_ids_def)
next
  case (snoc p ps)
  obtain u v where "p = (u, v)" by (cases p)
  then show ?case
    using state_of_add_edge [OF snoc.IH, of u v] by simp
qed

lemma state_of_lines: "state_of (parsed ls) (fold add_line ls init_state)"
  by (simp add: fold_add_line state_of_fold)

subsection \<open>The row loop\<close>

lemma fold_row_step:
  assumes "i \<le> n" and "length rp0 = n + 1"
  shows "fold (row_step A S M) [0..<i] (rp0, [], 0) =
           (map (\<lambda>j. of_nat (length (concat (map (row_data A S M) [0..<j])))) [0..<i] @ drop i rp0,
            concat (map (row_data A S M) [0..<i]),
            length (concat (map (row_data A S M) [0..<i])))"
  using assms(1)
proof (induction i)
  case 0
  then show ?case by simp
next
  case (Suc i)
  let ?f = "\<lambda>j. (of_nat (length (concat (map (row_data A S M) [0..<j]))) :: u32)"
  have i: "i < length rp0"
    using Suc.prems assms(2) by simp
  have d: "drop i rp0 = rp0 ! i # drop (Suc i) rp0"
    using i by (simp add: Cons_nth_drop_Suc)
  have u: "(map ?f [0..<i] @ drop i rp0)[i := v] = map ?f [0..<i] @ v # drop (Suc i) rp0" for v
    by (simp add: list_update_append d)
  have "fold (row_step A S M) [0..<Suc i] (rp0, [], 0) =
          row_step A S M i (fold (row_step A S M) [0..<i] (rp0, [], 0))"
    by simp
  also have "\<dots> = row_step A S M i
      (map ?f [0..<i] @ drop i rp0, concat (map (row_data A S M) [0..<i]),
       length (concat (map (row_data A S M) [0..<i])))"
    using Suc by simp
  also have "\<dots> = (map ?f [0..<Suc i] @ drop (Suc i) rp0,
       concat (map (row_data A S M) [0..<Suc i]),
       length (concat (map (row_data A S M) [0..<Suc i])))"
    by (cases "A (S ! i)") (simp_all add: row_step_def row_data_def u Let_def)
  finally show ?case .
qed

lemma build_csr_rows:
  "build_csr st =
     (let S = sort (allNodeIds st);
          n = length S;
          M = map_of (rev (zip S [0..<n]))
      in \<lparr>numNodes = n,
          rowPtr = map (\<lambda>j. of_nat (length (concat (map (row_data (adj st) S M) [0..<j])))) [0..<n + 1],
          edgeList = map to_uint32 (concat (map (row_data (adj st) S M) [0..<n]))\<rparr>)"
proof -
  define S where "S = sort (allNodeIds st)"
  define n where "n = length S"
  define M where "M = map_of (rev (zip S [0..<n]))"
  let ?f = "\<lambda>j. (of_nat (length (concat (map (row_data (adj st) S M) [0..<j]))) :: u32)"
  have len: "length (replicate (n + 1) (0::u32)) = n + 1"
    by simp
  have "drop n (replicate (n + 1) (0::u32)) = replicate (n + 1 - n) 0"
    by (simp only: drop_replicate)
  then have dr: "drop n (replicate (n + 1) (0::u32)) = [0]"
    by simp
  have f: "fold (row_step (adj st) S M) [0..<n] (replicate (n + 1) 0, [], 0) =
      (map ?f [0..<n] @ [0], concat (map (row_data (adj st) S M) [0..<n]),
       length (concat (map (row_data (adj st) S M) [0..<n])))"
    using fold_row_step [OF le_refl len, of "adj st" S M] by (simp only: dr)
  have "(map ?f [0..<n] @ [0])[n := v] = map ?f [0..<n] @ [v]" for v
    by (simp add: list_update_append)
  then have "build_csr st = \<lparr>numNodes = n, rowPtr = map ?f [0..<n + 1],
      edgeList = map to_uint32 (concat (map (row_data (adj st) S M) [0..<n]))\<rparr>"
    unfolding build_csr_def Let_def S_def [symmetric] n_def [symmetric] M_def [symmetric] f
    by simp
  then show ?thesis
    by (simp add: Let_def S_def n_def M_def)
qed

subsection \<open>The builder follows the specification\<close>

lemma finite_node_ids: "finite (node_ids ps)"
  by (simp add: node_ids_def)

lemma nbr_ids_subset: "nbr_ids ps k \<subseteq> node_ids ps"
  by (force simp: nbr_ids_def node_ids_def)

lemma finite_nbr_ids: "finite (nbr_ids ps k)"
  using nbr_ids_subset finite_node_ids by (rule finite_subset)

lemma sort_distinct: "distinct xs \<Longrightarrow> sort xs = sorted_list_of_set (set xs)"
  by (simp add: sorted_list_of_set_sort_remdups distinct_remdups_id)

lemma less_nth_take:
  assumes "sorted_wrt (<) (xs :: int list)" and "i < length xs"
  shows "{x \<in> set xs. x < xs ! i} = set (take i xs)"
proof -
  have sp: "xs = take i xs @ xs ! i # drop (Suc i) xs"
    using assms(2) by (rule id_take_nth_drop)
  have "sorted_wrt (<) (take i xs @ xs ! i # drop (Suc i) xs)"
    using assms(1) sp by simp
  then have lo: "\<forall>x \<in> set (take i xs). x < xs ! i" and hi: "\<forall>x \<in> set (drop (Suc i) xs). xs ! i < x"
    by (auto simp: sorted_wrt_append)
  have "set xs = set (take i xs @ xs ! i # drop (Suc i) xs)"
    using sp by simp
  then have "set xs = set (take i xs) \<union> {xs ! i} \<union> set (drop (Suc i) xs)"
    by (simp only: set_append list.set) auto
  then show ?thesis
    using lo hi by auto
qed

lemma rank_of_nth:
  assumes "finite V" and "i < card V"
  shows "rank_of V (sorted_list_of_set V ! i) = i"
proof -
  let ?S = "sorted_list_of_set V"
  have s: "sorted_wrt (<) ?S" and v: "set ?S = V" and l: "length ?S = card V"
    using assms(1) by simp_all
  have "{x \<in> V. x < ?S ! i} = set (take i ?S)"
    using less_nth_take [OF s, of i] assms(2) l v by simp
  moreover have "distinct (take i ?S)"
    by simp
  ultimately have "rank_of V (?S ! i) = length (take i ?S)"
    by (simp add: rank_of_def distinct_card)
  then show ?thesis
    using assms(2) l by simp
qed

lemma rank_of_less:
  assumes "finite V" and "k \<in> V"
  shows "rank_of V k < card V"
proof -
  have "{x \<in> V. x < k} \<subset> V"
    using assms(2) by auto
  then show ?thesis
    unfolding rank_of_def using assms(1) by (rule psubset_card_mono [rotated])
qed

lemma rank_of_mono:
  assumes "finite V" and "a \<in> V" and "a < b"
  shows "rank_of V a < rank_of V b"
proof -
  have "{x \<in> V. x < a} \<subset> {x \<in> V. x < b}"
    using assms(2,3) by auto
  moreover have "finite {x \<in> V. x < b}"
    using assms(1) by simp
  ultimately show ?thesis
    unfolding rank_of_def by (rule psubset_card_mono [rotated])
qed

lemma nth_rank_of:
  assumes "finite V" and "k \<in> V"
  shows "sorted_list_of_set V ! rank_of V k = k"
proof -
  let ?S = "sorted_list_of_set V"
  have "k \<in> set ?S"
    using assms by simp
  then obtain i where i: "i < length ?S" "?S ! i = k"
    by (auto simp: in_set_conv_nth)
  then have "rank_of V k = i"
    using rank_of_nth [OF assms(1), of i] by simp
  then show ?thesis
    using i by simp
qed

lemma nodeMap_rank:
  assumes "finite V"
  shows "map_of (rev (zip (sorted_list_of_set V) [0..<card V])) k =
           (if k \<in> V then Some (rank_of V k) else None)"
proof -
  let ?S = "sorted_list_of_set V"
  let ?z = "zip ?S [0..<card V]"
  have l: "length ?S = card V" and d: "distinct ?S" and v: "set ?S = V"
    using assms by simp_all
  have fz: "map fst ?z = ?S"
    using l by simp
  have d1: "distinct (map fst (rev ?z))"
    using d fz by (simp add: rev_map [symmetric])
  have d2: "distinct (map fst ?z)"
    using d fz by simp
  have "set (rev ?z) = set ?z"
    by simp
  then have "map_of (rev ?z) = map_of ?z"
    using map_of_inject_set [OF d1 d2] by simp
  moreover have "map_of ?z k = (if k \<in> V then Some (rank_of V k) else None)"
  proof (cases "k \<in> V")
    case True
    have r: "rank_of V k < card V"
      using assms True by (rule rank_of_less)
    have "map_of ?z (?S ! rank_of V k) = Some ([0..<card V] ! rank_of V k)"
      using l d r by (intro map_of_zip_nth) simp_all
    then show ?thesis
      using True r nth_rank_of [OF assms True] by simp
  next
    case False
    then have "k \<notin> set ?S"
      using v by simp
    then have "map_of ?z k = None"
      using l by simp
    then show ?thesis
      using False by simp
  qed
  ultimately show ?thesis
    by simp
qed

lemma row_data_spec:
  assumes st: "state_of ps st" and j: "j < card (node_ids ps)"
    and S: "S = sort (allNodeIds st)" and M: "M = map_of (rev (zip S [0..<length S]))"
  shows "row_data (adj st) S M j = map Some (spec_rows ps j)"
proof -
  let ?V = "node_ids ps"
  let ?S = "sorted_list_of_set ?V"
  from st have d: "distinct (allNodeIds st)" and s: "set (allNodeIds st) = ?V"
    and n: "\<And>k. (adj st k = None) = (k \<notin> ?V)"
    and a: "\<And>k s. adj st k = Some s \<Longrightarrow> distinct s \<and> set s = nbr_ids ps k"
    by (auto simp: state_of_def)
  have S': "S = ?S"
    using d s S by (simp add: sort_distinct)
  have l: "length ?S = card ?V"
    by simp
  have M': "M = map_of (rev (zip ?S [0..<card ?V]))"
    using M S' l by simp
  have "?S ! j \<in> set ?S"
    using j l by (intro nth_mem) simp
  then have "?S ! j \<in> ?V"
    by (simp add: finite_node_ids)
  then obtain nbs where nbs: "adj st (?S ! j) = Some nbs"
    using n [of "?S ! j"] by auto
  then have so: "sort nbs = sorted_list_of_set (nbr_ids ps (?S ! j))"
    using a [OF nbs] by (simp add: sort_distinct)
  have "map M (sorted_list_of_set (nbr_ids ps (?S ! j)))
          = map (Some \<circ> rank_of ?V) (sorted_list_of_set (nbr_ids ps (?S ! j)))"
  proof (rule map_cong [OF refl])
    fix k
    assume "k \<in> set (sorted_list_of_set (nbr_ids ps (?S ! j)))"
    then have "k \<in> ?V"
      using nbr_ids_subset [of ps "?S ! j"] by (auto simp: finite_nbr_ids)
    then show "M k = (Some \<circ> rank_of ?V) k"
      by (simp add: M' nodeMap_rank finite_node_ids)
  qed
  then show ?thesis
    by (simp add: row_data_def S' nbs so spec_rows_def)
qed

lemma concat_rows_spec:
  assumes st: "state_of ps st" and j: "j \<le> card (node_ids ps)"
    and S: "S = sort (allNodeIds st)" and M: "M = map_of (rev (zip S [0..<length S]))"
  shows "concat (map (row_data (adj st) S M) [0..<j]) = map Some (concat (map (spec_rows ps) [0..<j]))"
proof -
  have "map (row_data (adj st) S M) [0..<j] = map (\<lambda>i. map Some (spec_rows ps i)) [0..<j]"
  proof (rule map_cong [OF refl])
    fix i
    assume "i \<in> set [0..<j]"
    then have "i < card (node_ids ps)"
      using j by simp
    then show "row_data (adj st) S M i = map Some (spec_rows ps i)"
      using st S M by (intro row_data_spec)
  qed
  then have "concat (map (row_data (adj st) S M) [0..<j])
        = concat (map (\<lambda>i. map Some (spec_rows ps i)) [0..<j])"
    by (rule arg_cong)
  also have "\<dots> = map Some (concat (map (spec_rows ps) [0..<j]))"
    by (simp add: map_concat comp_def)
  finally show ?thesis .
qed

lemma build_csr_spec:
  assumes "state_of ps st"
  shows "build_csr st = spec_csr ps"
proof -
  let ?V = "node_ids ps"
  define S where "S = sort (allNodeIds st)"
  define M where "M = map_of (rev (zip S [0..<length S]))"
  from assms have d: "distinct (allNodeIds st)" and s: "set (allNodeIds st) = ?V"
    by (auto simp: state_of_def)
  have n: "length S = card ?V"
    using d s by (simp add: S_def distinct_card [symmetric])
  have c: "concat (map (row_data (adj st) S M) [0..<j]) = map Some (concat (map (spec_rows ps) [0..<j]))"
    if "j \<le> card ?V" for j
    using assms that S_def M_def by (rule concat_rows_spec)
  have rp: "map (\<lambda>j. (of_nat (length (concat (map (row_data (adj st) S M) [0..<j]))) :: u32))
           [0..<card ?V + 1]
        = map (\<lambda>j. of_nat (spec_offset ps j)) [0..<card ?V + 1]"
  proof (rule map_cong [OF refl])
    fix j
    assume "j \<in> set [0..<card ?V + 1]"
    then have "j \<le> card ?V"
      by auto
    then show "(of_nat (length (concat (map (row_data (adj st) S M) [0..<j]))) :: u32)
           = of_nat (spec_offset ps j)"
      by (simp add: c spec_offset_def)
  qed
  have el: "map to_uint32 (concat (map (row_data (adj st) S M) [0..<card ?V]))
        = map of_nat (concat (map (spec_rows ps) [0..<card ?V]))"
    by (simp add: c to_uint32_def comp_def)
  have "build_csr st = \<lparr>numNodes = length S,
          rowPtr = map (\<lambda>j. of_nat (length (concat (map (row_data (adj st) S M) [0..<j])))) [0..<length S + 1],
          edgeList = map to_uint32 (concat (map (row_data (adj st) S M) [0..<length S]))\<rparr>"
    unfolding build_csr_rows Let_def S_def M_def ..
  then show ?thesis
    unfolding n rp el by (simp add: spec_csr_def Let_def)
qed

lemma csr_of_lines_spec: "csr_of_lines ls = spec_csr (parsed ls)"
  unfolding csr_of_lines_def by (rule build_csr_spec) (rule state_of_lines)

subsection \<open>Offsets and sizes\<close>

lemma length_spec_rows: "length (spec_rows ps j) = card (nbr_ids ps (sorted_list_of_set (node_ids ps) ! j))"
  by (simp add: spec_rows_def)

lemma card_node_ids_le: "card (node_ids ps) \<le> 2 * length ps"
proof -
  have "card (node_ids ps) \<le> card (fst ` set ps) + card (snd ` set ps)"
    unfolding node_ids_def by (rule card_Un_le)
  also have "\<dots> \<le> card (set ps) + card (set ps)"
    by (intro add_mono card_image_le) simp_all
  also have "\<dots> \<le> length ps + length ps"
    by (intro add_mono card_length)
  finally show ?thesis by simp
qed

lemma sum_card_nbr_ids_le: "(\<Sum>v \<in> node_ids ps. card (nbr_ids ps v)) \<le> 2 * length ps"
proof -
  have "(\<Sum>v \<in> node_ids ps. card (nbr_ids ps v)) = card (SIGMA v:node_ids ps. nbr_ids ps v)"
    by (simp add: finite_node_ids finite_nbr_ids)
  also have "\<dots> \<le> card (set ps \<union> prod.swap ` set ps)"
    by (rule card_mono) (auto simp: nbr_ids_def)
  also have "\<dots> \<le> card (set ps) + card (prod.swap ` set ps)"
    by (rule card_Un_le)
  also have "\<dots> \<le> card (set ps) + card (set ps)"
    by (intro add_mono card_image_le) simp_all
  also have "\<dots> \<le> length ps + length ps"
    by (intro add_mono card_length)
  finally show ?thesis by simp
qed

lemma spec_offset_sum:
  assumes "j \<le> card (node_ids ps)"
  shows "spec_offset ps j = (\<Sum>v \<in> set (take j (sorted_list_of_set (node_ids ps))). card (nbr_ids ps v))"
proof -
  let ?S = "sorted_list_of_set (node_ids ps)"
  have l: "length ?S = card (node_ids ps)"
    by simp
  have "spec_offset ps j = sum_list (map (\<lambda>i. card (nbr_ids ps (?S ! i))) [0..<j])"
    by (simp add: spec_offset_def length_concat comp_def length_spec_rows)
  also have "map (\<lambda>i. card (nbr_ids ps (?S ! i))) [0..<j] = map (\<lambda>v. card (nbr_ids ps v)) (take j ?S)"
    using assms l by (intro nth_equalityI) simp_all
  also have "sum_list (map (\<lambda>v. card (nbr_ids ps v)) (take j ?S))
      = (\<Sum>v \<in> set (take j ?S). card (nbr_ids ps v))"
    by (rule sum_list_distinct_conv_sum_set) simp
  finally show ?thesis .
qed

lemma spec_offset_mono:
  assumes "i \<le> j"
  shows "spec_offset ps i \<le> spec_offset ps j"
proof -
  have "[0..<j] = [0..<i] @ [i..<j]"
    using assms by (metis le_add_diff_inverse upt_add_eq_append zero_le)
  then show ?thesis
    by (simp add: spec_offset_def)
qed

lemma spec_offset_le:
  assumes "j \<le> card (node_ids ps)"
  shows "spec_offset ps j \<le> 2 * length ps"
proof -
  have "spec_offset ps j \<le> spec_offset ps (card (node_ids ps))"
    using assms by (rule spec_offset_mono)
  also have "\<dots> = (\<Sum>v \<in> node_ids ps. card (nbr_ids ps v))"
    by (simp add: spec_offset_sum finite_node_ids)
  also have "\<dots> \<le> 2 * length ps"
    by (rule sum_card_nbr_ids_le)
  finally show ?thesis .
qed

lemma spec_offset_Suc: "spec_offset ps (Suc j) = spec_offset ps j + length (spec_rows ps j)"
  by (simp add: spec_offset_def)

lemma segment_rows:
  assumes "j < n"
  shows "segment (concat (map (spec_rows ps) [0..<n])) (spec_offset ps j) (spec_offset ps (Suc j))
           = spec_rows ps j"
proof -
  have "[0..<n] = [0..<j] @ j # [Suc j..<n]"
    using assms by (metis le_add_diff_inverse less_imp_le upt_add_eq_append upt_conv_Cons zero_le)
  then have "concat (map (spec_rows ps) [0..<n]) =
      concat (map (spec_rows ps) [0..<j]) @ spec_rows ps j @ concat (map (spec_rows ps) [Suc j..<n])"
    by simp
  then show ?thesis
    by (simp add: segment_def spec_offset_Suc spec_offset_def)
qed

lemma segment_map: "segment (map f xs) s e = map f (segment xs s e)"
  by (simp add: segment_def take_map drop_map)

lemma spec_rows_elem:
  assumes "j < card (node_ids ps)" and "r \<in> set (spec_rows ps j)"
  obtains k where "r = rank_of (node_ids ps) k" and "k \<in> nbr_ids ps (sorted_list_of_set (node_ids ps) ! j)"
    and "k \<in> node_ids ps" and "r < card (node_ids ps)"
proof -
  from assms(2) obtain k where k: "r = rank_of (node_ids ps) k"
    "k \<in> nbr_ids ps (sorted_list_of_set (node_ids ps) ! j)"
    by (auto simp: spec_rows_def finite_nbr_ids)
  then have v: "k \<in> node_ids ps"
    using nbr_ids_subset by auto
  then have "r < card (node_ids ps)"
    using k rank_of_less [OF finite_node_ids] by simp
  then show ?thesis
    using that k v by blast
qed

subsection \<open>The invariants of the built graph\<close>

lemma spec_csr_fields:
  "numNodes (spec_csr ps) = card (node_ids ps)"
  "length (rowPtr (spec_csr ps)) = card (node_ids ps) + 1"
  "edgeList (spec_csr ps) = map of_nat (concat (map (spec_rows ps) [0..<card (node_ids ps)]))"
  "length (edgeList (spec_csr ps)) = spec_offset ps (card (node_ids ps))"
  by (simp_all add: spec_csr_def Let_def spec_offset_def)

lemma spec_csr_rowPtr_nth:
  assumes "j \<le> card (node_ids ps)"
  shows "rowPtr (spec_csr ps) ! j = of_nat (spec_offset ps j)"
proof -
  have "j < length [0..<card (node_ids ps) + 1]"
    using assms by simp
  then have "map (\<lambda>j. (of_nat (spec_offset ps j) :: u32)) [0..<card (node_ids ps) + 1] ! j
      = of_nat (spec_offset ps ([0..<card (node_ids ps) + 1] ! j))"
    by (rule nth_map)
  also have "[0..<card (node_ids ps) + 1] ! j = j"
    using assms by (metis add_0 less_Suc_eq_le nth_upt Suc_eq_plus1)
  finally show ?thesis
    by (simp add: spec_csr_def Let_def)
qed

lemma spec_csr_unat_rowPtr:
  assumes "2 * length ps < 2 ^ 32" and "j \<le> card (node_ids ps)"
  shows "unat (rowPtr (spec_csr ps) ! j) = spec_offset ps j"
proof -
  have "spec_offset ps j < 2 ^ 32"
    using spec_offset_le [OF assms(2)] assms(1) by simp
  then show ?thesis
    by (simp add: spec_csr_rowPtr_nth [OF assms(2)] unat_of_nat_small)
qed

lemma nbrs_spec:
  assumes b: "2 * length ps < 2 ^ 32" and j: "j < card (node_ids ps)"
  shows "nbrs (spec_csr ps) j = spec_rows ps j"
proof -
  let ?n = "card (node_ids ps)"
  have n: "?n < 2 ^ 32"
    using card_node_ids_le [of ps] b by simp
  have "nbrs (spec_csr ps) j =
      map unat (segment (map of_nat (concat (map (spec_rows ps) [0..<?n])) :: u32 list)
        (spec_offset ps j) (spec_offset ps (Suc j)))"
    using j by (simp add: nbrs_def spec_csr_unat_rowPtr [OF b] spec_csr_fields)
  also have "\<dots> = map (\<lambda>r. unat (of_nat r :: u32)) (spec_rows ps j)"
    using j by (simp add: segment_map segment_rows comp_def)
  also have "\<dots> = map (\<lambda>r. r) (spec_rows ps j)"
  proof (rule map_cong [OF refl])
    fix r
    assume "r \<in> set (spec_rows ps j)"
    with j have "r < ?n"
      by (rule spec_rows_elem)
    then show "unat (of_nat r :: u32) = r"
      using n by (simp add: unat_of_nat_small)
  qed
  finally show ?thesis
    by simp
qed

lemma nth_node_id:
  assumes "j < card (node_ids ps)"
  shows "sorted_list_of_set (node_ids ps) ! j \<in> node_ids ps"
proof -
  have "sorted_list_of_set (node_ids ps) ! j \<in> set (sorted_list_of_set (node_ids ps))"
    using assms by (intro nth_mem) simp
  then show ?thesis
    by (simp add: finite_node_ids)
qed

lemma edge_spec:
  assumes b: "2 * length ps < 2 ^ 32" and u: "u < card (node_ids ps)" and v: "v < card (node_ids ps)"
  shows "edge (spec_csr ps) u v =
           (sorted_list_of_set (node_ids ps) ! v \<in> nbr_ids ps (sorted_list_of_set (node_ids ps) ! u))"
proof -
  let ?V = "node_ids ps"
  let ?S = "sorted_list_of_set ?V"
  have e: "edge (spec_csr ps) u v = (v \<in> set (spec_rows ps u))"
    by (simp add: edge_def nbrs_spec [OF b u])
  show ?thesis
  proof
    assume "edge (spec_csr ps) u v"
    then have "v \<in> set (spec_rows ps u)"
      using e by simp
    with u obtain k where k: "v = rank_of ?V k" "k \<in> nbr_ids ps (?S ! u)" "k \<in> ?V"
      by (rule spec_rows_elem)
    then have "?S ! v = k"
      using nth_rank_of [OF finite_node_ids, of k ps] by simp
    then show "?S ! v \<in> nbr_ids ps (?S ! u)"
      using k by simp
  next
    assume a: "?S ! v \<in> nbr_ids ps (?S ! u)"
    have "rank_of ?V (?S ! v) = v"
      using finite_node_ids v by (rule rank_of_nth)
    then have "v \<in> rank_of ?V ` nbr_ids ps (?S ! u)"
      using a by (metis imageI)
    then show "edge (spec_csr ps) u v"
      using e by (simp add: spec_rows_def finite_nbr_ids)
  qed
qed

lemma spec_rowPtr_ok:
  assumes b: "2 * length ps < 2 ^ 32"
  shows "rowPtr_ok (spec_csr ps)"
proof -
  let ?n = "card (node_ids ps)"
  let ?g = "spec_csr ps"
  have n: "?n + 1 < 2 ^ 32"
  proof -
    have "?n \<le> 2 * length ps"
      by (rule card_node_ids_le)
    moreover have "even (2 * length ps)" and "odd ((2::nat) ^ 32 - 1)"
      by simp_all
    ultimately show ?thesis
      using b by presburger
  qed
  have "sorted (rowPtr ?g)"
    unfolding sorted_iff_nth_mono
  proof (intro allI impI)
    fix i j
    assume "i \<le> j" and "j < length (rowPtr ?g)"
    then have j: "j \<le> ?n" and i: "i \<le> ?n"
      by (simp_all add: spec_csr_fields)
    have "unat (rowPtr ?g ! i) \<le> unat (rowPtr ?g ! j)"
      using spec_offset_mono [OF \<open>i \<le> j\<close>, of ps]
      by (simp add: spec_csr_unat_rowPtr [OF b] i j)
    then show "rowPtr ?g ! i \<le> rowPtr ?g ! j"
      by (simp add: word_le_nat_alt)
  qed
  moreover have "unat (rowPtr ?g ! numNodes ?g) = length (edgeList ?g)"
    by (simp add: spec_csr_fields(1,4) spec_csr_unat_rowPtr [OF b])
  ultimately show ?thesis
    using n by (simp add: rowPtr_ok_def spec_csr_fields)
qed

lemma spec_ids_ok:
  assumes b: "2 * length ps < 2 ^ 32"
  shows "ids_ok (spec_csr ps)"
  unfolding ids_ok_def
proof
  let ?n = "card (node_ids ps)"
  fix e
  assume "e \<in> set (edgeList (spec_csr ps))"
  then obtain r j where e: "e = of_nat r" and j: "j < ?n" and r: "r \<in> set (spec_rows ps j)"
    by (auto simp: spec_csr_fields)
  from j r have rn: "r < ?n"
    by (rule spec_rows_elem)
  moreover have "?n < 2 ^ 32"
    using card_node_ids_le [of ps] b by simp
  ultimately have "unat e = r"
    using e by (simp add: unat_of_nat_small)
  then show "unat e < numNodes (spec_csr ps)"
    using rn by (simp add: spec_csr_fields)
qed

lemma spec_rows_strict:
  assumes b: "2 * length ps < 2 ^ 32"
  shows "rows_strict (spec_csr ps)"
  unfolding rows_strict_def
proof (intro allI impI)
  let ?V = "node_ids ps"
  fix i
  assume "i < numNodes (spec_csr ps)"
  then have i: "i < card ?V"
    by (simp add: spec_csr_fields)
  let ?N = "nbr_ids ps (sorted_list_of_set ?V ! i)"
  have "sorted_wrt (<) (sorted_list_of_set ?N)"
    by simp
  then have "sorted_wrt (\<lambda>x y. rank_of ?V x < rank_of ?V y) (sorted_list_of_set ?N)"
  proof (rule sorted_wrt_mono_rel [rotated])
    fix x y
    assume "x \<in> set (sorted_list_of_set ?N)" and "x < y"
    then have "x \<in> ?V"
      using nbr_ids_subset [of ps] by (auto simp: finite_nbr_ids)
    then show "rank_of ?V x < rank_of ?V y"
      using \<open>x < y\<close> by (intro rank_of_mono finite_node_ids)
  qed
  then show "sorted_wrt (<) (nbrs (spec_csr ps) i)"
    by (simp add: nbrs_spec [OF b i] spec_rows_def sorted_wrt_map)
qed

lemma spec_no_self:
  assumes b: "2 * length ps < 2 ^ 32"
  shows "no_self (spec_csr ps)"
  unfolding no_self_def
proof (intro allI impI)
  fix i
  assume "i < numNodes (spec_csr ps)"
  then have i: "i < card (node_ids ps)"
    by (simp add: spec_csr_fields)
  show "\<not> edge (spec_csr ps) i i"
    by (simp add: edge_spec [OF b i i] nbr_ids_def)
qed

lemma nbr_ids_sym: "(v \<in> nbr_ids ps u) = (u \<in> nbr_ids ps v)"
  by (auto simp: nbr_ids_def)

lemma spec_symmetric:
  assumes b: "2 * length ps < 2 ^ 32"
  shows "symmetric (spec_csr ps)"
  unfolding symmetric_def
proof (intro allI impI)
  fix u v
  assume "u < numNodes (spec_csr ps)" and "v < numNodes (spec_csr ps)"
  then have u: "u < card (node_ids ps)" and v: "v < card (node_ids ps)"
    by (simp_all add: spec_csr_fields)
  show "edge (spec_csr ps) u v = edge (spec_csr ps) v u"
    unfolding edge_spec [OF b u v] edge_spec [OF b v u] by (rule nbr_ids_sym)
qed

lemma spec_csr_ok: "2 * length ps < 2 ^ 32 \<Longrightarrow> csr_ok (spec_csr ps)"
  by (simp add: csr_ok_def spec_rowPtr_ok spec_ids_ok spec_rows_strict spec_no_self spec_symmetric)

lemma length_parsed_le: "length (parsed ls) \<le> length ls"
  unfolding parsed_def by (induction ls) (auto split: option.splits)

lemma parsed_bound: "length ls < 2 ^ 31 \<Longrightarrow> 2 * length (parsed ls) < 2 ^ 32"
  using length_parsed_le [of ls] by simp

subsection \<open>The builder's claims\<close>

lemma set_parsed: "set (parsed ls) = {p. \<exists>l \<in> set ls. parse_line l = Some p}"
  unfolding parsed_def by (induction ls) (auto split: option.splits)

lemma spec_csr_cong:
  assumes "set ps = set ps'"
  shows "spec_csr ps = spec_csr ps'"
proof -
  have n: "node_ids ps = node_ids ps'"
    using assms by (simp add: node_ids_def)
  have b: "nbr_ids ps = nbr_ids ps'"
    using assms by (simp add: nbr_ids_def fun_eq_iff)
  have r: "spec_rows ps = spec_rows ps'"
    by (simp add: spec_rows_def fun_eq_iff n b)
  have "spec_offset ps = spec_offset ps'"
    by (simp add: spec_offset_def fun_eq_iff r)
  then show ?thesis
    by (simp add: spec_csr_def n r)
qed

lemma csr_of_lines_cong:
  assumes "set ls = set ls'"
  shows "csr_of_lines ls = csr_of_lines ls'"
  unfolding csr_of_lines_spec
  by (rule spec_csr_cong) (simp add: set_parsed assms)

lemma csr_of_lines_ok:
  assumes "length ls < 2 ^ 31"
  shows "csr_ok (csr_of_lines ls)"
  unfolding csr_of_lines_spec
  by (rule spec_csr_ok) (rule parsed_bound [OF assms])



text \<open>
  Claim C2. For every list of records (fewer than \<open>2 ^ 31\<close> of them, so that the offsets
  fit the \<open>Uint32Array\<close>), the graph that the builder returns has the invariants:
  \<open>rowPtr\<close> has \<open>numNodes + 1\<close> entries, does not decrease and ends at the length of
  \<open>edgeList\<close>; every entry of \<open>edgeList\<close> is a node id; every sub-list increases
  strictly and does not hold its own node. The sub-list of node \<open>i\<close> is the neighbours of
  the \<open>i\<close>-th id, sorted by their ids in the input and then replaced by their ranks.
\<close>

theorem builder_invariants:
  assumes "length ls < 2 ^ 31"
  shows "rowPtr_ok (csr_of_lines ls) \<and> ids_ok (csr_of_lines ls) \<and>
         rows_strict (csr_of_lines ls) \<and> no_self (csr_of_lines ls) \<and>
         (\<forall>i < numNodes (csr_of_lines ls).
            nbrs (csr_of_lines ls) i =
              map (rank_of (node_ids (parsed ls)))
                (sorted_list_of_set
                   (nbr_ids (parsed ls) (sorted_list_of_set (node_ids (parsed ls)) ! i))))"
proof -
  have b: "2 * length (parsed ls) < 2 ^ 32"
    using assms by (rule parsed_bound)
  have "nbrs (csr_of_lines ls) i =
              map (rank_of (node_ids (parsed ls)))
                (sorted_list_of_set
                   (nbr_ids (parsed ls) (sorted_list_of_set (node_ids (parsed ls)) ! i)))"
    if "i < numNodes (csr_of_lines ls)" for i
    using that nbrs_spec [OF b, of i]
    by (simp add: csr_of_lines_spec spec_csr_fields spec_rows_def)
  then show ?thesis
    using spec_rowPtr_ok [OF b] spec_ids_ok [OF b] spec_rows_strict [OF b] spec_no_self [OF b]
    by (simp add: csr_of_lines_spec)
qed

theorem builder_invariants_witness:
  "length [js ''5 3'', js ''3 5'', js ''7 7'', js ''9 3'', js ''x y'', js ''5 9''] < (2::nat) ^ 31 \<and>
   csr_of_lines [js ''5 3'', js ''3 5'', js ''7 7'', js ''9 3'', js ''x y'', js ''5 9''] =
     \<lparr>numNodes = 4, rowPtr = [0, 2, 4, 4, 6], edgeList = [1, 3, 0, 3, 0, 1]\<rparr> \<and>
   rowPtr_ok (csr_of_lines [js ''5 3'', js ''3 5'', js ''7 7'', js ''9 3'', js ''x y'', js ''5 9'']) \<and>
   ids_ok (csr_of_lines [js ''5 3'', js ''3 5'', js ''7 7'', js ''9 3'', js ''x y'', js ''5 9'']) \<and>
   rows_strict (csr_of_lines [js ''5 3'', js ''3 5'', js ''7 7'', js ''9 3'', js ''x y'', js ''5 9'']) \<and>
   no_self (csr_of_lines [js ''5 3'', js ''3 5'', js ''7 7'', js ''9 3'', js ''x y'', js ''5 9''])"
proof -
  have l: "length [js ''5 3'', js ''3 5'', js ''7 7'', js ''9 3'', js ''x y'', js ''5 9''] < (2::nat) ^ 31"
    by simp
  have g: "csr_of_lines [js ''5 3'', js ''3 5'', js ''7 7'', js ''9 3'', js ''x y'', js ''5 9''] =
     \<lparr>numNodes = 4, rowPtr = [0, 2, 4, 4, 6], edgeList = [1, 3, 0, 3, 0, 1]\<rparr>"
    by code_simp
  show ?thesis
    using builder_invariants [OF l] l g by simp
qed

text \<open>
  Claim C3. In the graph that the builder returns, \<open>v\<close> is in the sub-list of \<open>u\<close>
  exactly when \<open>u\<close> is in the sub-list of \<open>v\<close>, and no node is in its own sub-list.
\<close>

theorem builder_symmetric:
  assumes "length ls < 2 ^ 31"
  shows "symmetric (csr_of_lines ls) \<and> no_self (csr_of_lines ls)"
proof -
  have b: "2 * length (parsed ls) < 2 ^ 32"
    using assms by (rule parsed_bound)
  show ?thesis
    using spec_symmetric [OF b] spec_no_self [OF b] by (simp add: csr_of_lines_spec)
qed

theorem builder_symmetric_witness:
  "length [js ''1 2'', js ''2 2'', js ''4 1''] < (2::nat) ^ 31 \<and>
   symmetric (csr_of_lines [js ''1 2'', js ''2 2'', js ''4 1'']) \<and>
   no_self (csr_of_lines [js ''1 2'', js ''2 2'', js ''4 1'']) \<and>
   csr_of_lines [js ''1 2'', js ''2 2'', js ''4 1''] =
     \<lparr>numNodes = 3, rowPtr = [0, 2, 3, 4], edgeList = [1, 2, 0, 0]\<rparr>"
proof -
  have l: "length [js ''1 2'', js ''2 2'', js ''4 1''] < (2::nat) ^ 31"
    by simp
  have g: "csr_of_lines [js ''1 2'', js ''2 2'', js ''4 1''] =
     \<lparr>numNodes = 3, rowPtr = [0, 2, 3, 4], edgeList = [1, 2, 0, 0]\<rparr>"
    by code_simp
  show ?thesis
    using builder_symmetric [OF l] l g by simp
qed

text \<open>
  Claim C6. Records in another order give the same CSR graph, and so the same count.
\<close>

theorem order_independent:
  assumes "mset ls' = mset ls"
  shows "csr_of_lines ls' = csr_of_lines ls \<and>
         runTriangleCounting (csr_of_lines ls') = runTriangleCounting (csr_of_lines ls)"
proof -
  have "set ls' = set ls"
    using assms by (rule mset_eq_setD)
  then have "csr_of_lines ls' = csr_of_lines ls"
    by (rule csr_of_lines_cong)
  then show ?thesis
    by simp
qed

theorem order_independent_witness:
  "mset [js ''2 0'', js ''0 1'', js ''1 2''] = mset [js ''0 1'', js ''1 2'', js ''2 0''] \<and>
   csr_of_lines [js ''2 0'', js ''0 1'', js ''1 2''] = csr_of_lines [js ''0 1'', js ''1 2'', js ''2 0''] \<and>
   runTriangleCounting (csr_of_lines [js ''2 0'', js ''0 1'', js ''1 2'']) = Some 1"
proof -
  have m: "mset [js ''2 0'', js ''0 1'', js ''1 2''] = mset [js ''0 1'', js ''1 2'', js ''2 0'']"
    by (simp add: add_mset_commute)
  have c: "runTriangleCounting (csr_of_lines [js ''2 0'', js ''0 1'', js ''1 2'']) = Some 1"
    by code_simp
  show ?thesis
    using order_independent [OF m] m c by simp
qed














text \<open>
  Claim C5. The test graphs of section 8: one triangle, the complete graph on four
  nodes, two disjoint triangles, and the path 0-1-2-3.
\<close>

theorem test_graph_counts:
  "runTriangleCounting (parseGraphToCSR (js ''0 1\<newline>1 2\<newline>0 2'')) = Some 1 \<and>
   runTriangleCounting (parseGraphToCSR (js ''0 1\<newline>0 2\<newline>0 3\<newline>1 2\<newline>1 3\<newline>2 3'')) = Some 4 \<and>
   runTriangleCounting (parseGraphToCSR (js ''0 1\<newline>1 2\<newline>0 2\<newline>3 4\<newline>4 5\<newline>3 5'')) = Some 2 \<and>
   runTriangleCounting (parseGraphToCSR (js ''0 1\<newline>1 2\<newline>2 3'')) = Some 0"
  by code_simp

subsection \<open>The triangles of the input\<close>

lemma input_triangle_nodes:
  assumes "T \<in> input_triangles ps"
  shows "T \<subseteq> node_ids ps"
proof
  fix u
  assume u: "u \<in> T"
  from assms have c: "card T = 3" and e: "\<forall>u \<in> T. \<forall>v \<in> T. u \<noteq> v \<longrightarrow> v \<in> nbr_ids ps u"
    by (simp_all add: input_triangles_def)
  have "\<exists>v \<in> T. v \<noteq> u"
  proof (rule ccontr)
    assume "\<not> (\<exists>v \<in> T. v \<noteq> u)"
    then have "T \<subseteq> {u}"
      by auto
    then have "card T \<le> card {u}"
      by (intro card_mono) simp_all
    then show False
      using c by simp
  qed
  then obtain v where "v \<in> T" "v \<noteq> u"
    by blast
  then have "v \<in> nbr_ids ps u"
    using e u by auto
  then show "u \<in> node_ids ps"
    by (force simp: nbr_ids_def node_ids_def)
qed

lemma rank_of_inj: "inj_on (rank_of (node_ids ps)) (node_ids ps)"
proof (rule inj_onI)
  fix a b
  assume a: "a \<in> node_ids ps" and b: "b \<in> node_ids ps"
    and e: "rank_of (node_ids ps) a = rank_of (node_ids ps) b"
  show "a = b"
  proof (rule ccontr)
    assume "a \<noteq> b"
    then consider "a < b" | "b < a"
      by linarith
    then show False
    proof cases
      case 1
      then show False
        using rank_of_mono [OF finite_node_ids a, of b] e by simp
    next
      case 2
      then show False
        using rank_of_mono [OF finite_node_ids b, of a] e by simp
    qed
  qed
qed

lemma triangles_spec_image:
  assumes b: "2 * length ps < 2 ^ 32"
  shows "triangles (spec_csr ps) = (\<lambda>T. rank_of (node_ids ps) ` T) ` input_triangles ps"
proof (intro set_eqI iffI)
  let ?V = "node_ids ps"
  let ?S = "sorted_list_of_set ?V"
  let ?r = "rank_of ?V"
  fix T'
  assume "T' \<in> triangles (spec_csr ps)"
  then have sub: "T' \<subseteq> {..<card ?V}" and c: "card T' = 3"
    and e: "\<forall>u \<in> T'. \<forall>v \<in> T'. u \<noteq> v \<longrightarrow> edge (spec_csr ps) u v"
    by (simp_all add: triangles_def spec_csr_fields)
  let ?T = "(\<lambda>i. ?S ! i) ` T'"
  have rn: "?r (?S ! i) = i" if "i \<in> T'" for i
    using that sub rank_of_nth [OF finite_node_ids, of i ps] by auto
  have inj: "inj_on (\<lambda>i. ?S ! i) T'"
    by (rule inj_on_inverseI [where g = ?r]) (rule rn)
  have "card ?T = 3"
    using c inj by (simp add: card_image)
  moreover have "\<forall>u \<in> ?T. \<forall>v \<in> ?T. u \<noteq> v \<longrightarrow> v \<in> nbr_ids ps u"
  proof (intro ballI impI)
    fix u v
    assume "u \<in> ?T" "v \<in> ?T" "u \<noteq> v"
    then obtain i j where i: "i \<in> T'" "u = ?S ! i" and j: "j \<in> T'" "v = ?S ! j" and "i \<noteq> j"
      by auto
    then have "edge (spec_csr ps) i j"
      using e by blast
    moreover have "i < card ?V" "j < card ?V"
      using i j sub by auto
    ultimately show "v \<in> nbr_ids ps u"
      using edge_spec [OF b, of i j] i j by simp
  qed
  ultimately have "?T \<in> input_triangles ps"
    by (simp add: input_triangles_def)
  moreover have "?r ` ?T = T'"
    using rn by (auto simp: image_image)
  ultimately show "T' \<in> (\<lambda>T. ?r ` T) ` input_triangles ps"
    by (metis imageI)
next
  let ?V = "node_ids ps"
  let ?S = "sorted_list_of_set ?V"
  let ?r = "rank_of ?V"
  fix T'
  assume "T' \<in> (\<lambda>T. ?r ` T) ` input_triangles ps"
  then obtain T where T: "T \<in> input_triangles ps" and T': "T' = ?r ` T"
    by blast
  from T have tv: "T \<subseteq> ?V"
    by (rule input_triangle_nodes)
  from T have c: "card T = 3" and e: "\<forall>u \<in> T. \<forall>v \<in> T. u \<noteq> v \<longrightarrow> v \<in> nbr_ids ps u"
    by (simp_all add: input_triangles_def)
  have inj: "inj_on ?r T"
    using rank_of_inj tv by (rule inj_on_subset)
  have "card T' = 3"
    using c inj T' by (simp add: card_image)
  moreover have sub: "T' \<subseteq> {..<card ?V}"
    using tv T' rank_of_less [OF finite_node_ids] by auto
  moreover have "\<forall>i \<in> T'. \<forall>j \<in> T'. i \<noteq> j \<longrightarrow> edge (spec_csr ps) i j"
  proof (intro ballI impI)
    fix i j
    assume "i \<in> T'" "j \<in> T'" "i \<noteq> j"
    then obtain u v where u: "u \<in> T" "i = ?r u" and v: "v \<in> T" "j = ?r v" and "u \<noteq> v"
      using T' by auto
    then have n: "v \<in> nbr_ids ps u"
      using e by blast
    have "u \<in> ?V" "v \<in> ?V"
      using u v tv by auto
    then have "?S ! i = u" "?S ! j = v" and "i < card ?V" "j < card ?V"
      using u v nth_rank_of [OF finite_node_ids] rank_of_less [OF finite_node_ids] by simp_all
    then show "edge (spec_csr ps) i j"
      using edge_spec [OF b, of i j] n by simp
  qed
  ultimately show "T' \<in> triangles (spec_csr ps)"
    by (simp add: triangles_def spec_csr_fields)
qed

lemma card_triangles_spec:
  assumes b: "2 * length ps < 2 ^ 32"
  shows "card (triangles (spec_csr ps)) = card (input_triangles ps)"
proof -
  have "inj_on (\<lambda>T. rank_of (node_ids ps) ` T) (input_triangles ps)"
  proof (rule inj_onI)
    fix A B
    assume "A \<in> input_triangles ps" "B \<in> input_triangles ps"
      and e: "rank_of (node_ids ps) ` A = rank_of (node_ids ps) ` B"
    then have "A \<subseteq> node_ids ps" "B \<subseteq> node_ids ps"
      by (simp_all add: input_triangle_nodes)
    then show "A = B"
      using e inj_on_image_eq_iff [OF rank_of_inj] by blast
  qed
  then show ?thesis
    unfolding triangles_spec_image [OF b] by (rule card_image)
qed

lemma count_of_lines:
  assumes "length ls < 2 ^ 31"
  shows "runTriangleCounting (csr_of_lines ls) = Some (of_nat (card (input_triangles (parsed ls))))"
proof -
  have b: "2 * length (parsed ls) < 2 ^ 32"
    using assms by (rule parsed_bound)
  have "runTriangleCounting (csr_of_lines ls) = Some (of_nat (card (triangles (csr_of_lines ls))))"
    unfolding runTriangleCounting_def
  proof (rule schedule_total)
    show "csr_ok (csr_of_lines ls)"
      using assms by (rule csr_of_lines_ok)
    then have "numNodes (csr_of_lines ls) + 1 < 2 ^ 32"
      by (simp add: csr_ok_def rowPtr_ok_def)
    then show "ceil_div (numNodes (csr_of_lines ls)) workgroupSize * workgroupSize \<le> 2 ^ 32"
      by (rule grid_256_fits)
    show "numNodes (csr_of_lines ls) \<le> ceil_div (numNodes (csr_of_lines ls)) workgroupSize * workgroupSize"
      by (rule ceil_div_ge) (simp add: workgroupSize_def)
  qed simp
  then show ?thesis
    by (simp add: csr_of_lines_spec card_triangles_spec [OF b])
qed

lemma input_triangles_cong: "nbr_ids ps = nbr_ids ps' \<Longrightarrow> input_triangles ps = input_triangles ps'"
  by (simp add: input_triangles_def)

lemma nbr_ids_redundant:
  assumes "parse_line l = Some (u, v)"
    and "u = v \<or> (u, v) \<in> set (parsed (xs @ ys)) \<or> (v, u) \<in> set (parsed (xs @ ys))"
  shows "nbr_ids (parsed (xs @ l # ys)) = nbr_ids (parsed (xs @ ys))"
proof -
  have "set (parsed (xs @ l # ys)) = insert (u, v) (set (parsed (xs @ ys)))"
    using assms(1) by (auto simp: set_parsed)
  then show ?thesis
    using assms(2) by (auto simp: nbr_ids_def fun_eq_iff)
qed

text \<open>
  Claim C7. A record that is a self-loop, or whose edge is already among the other
  records (in either direction), does not change the count, wherever it is added; and
  two inputs with the same edges between different ids have the same count.
\<close>

theorem redundant_records_keep_count:
  "(\<forall>xs l ys u v. length (xs @ l # ys) < 2 ^ 31 \<and> parse_line l = Some (u, v) \<and>
       (u = v \<or> (u, v) \<in> set (parsed (xs @ ys)) \<or> (v, u) \<in> set (parsed (xs @ ys))) \<longrightarrow>
       runTriangleCounting (csr_of_lines (xs @ l # ys)) = runTriangleCounting (csr_of_lines (xs @ ys))) \<and>
   (\<forall>ls ls'. length ls < 2 ^ 31 \<and> length ls' < 2 ^ 31 \<and> nbr_ids (parsed ls) = nbr_ids (parsed ls') \<longrightarrow>
       runTriangleCounting (csr_of_lines ls) = runTriangleCounting (csr_of_lines ls'))"
proof (intro conjI allI impI)
  fix ls ls'
  assume "length ls < 2 ^ 31 \<and> length ls' < 2 ^ 31 \<and> nbr_ids (parsed ls) = nbr_ids (parsed ls')"
  then have "length ls < 2 ^ 31" and "length ls' < 2 ^ 31"
    and "input_triangles (parsed ls) = input_triangles (parsed ls')"
    by (simp_all add: input_triangles_def)
  then show "runTriangleCounting (csr_of_lines ls) = runTriangleCounting (csr_of_lines ls')"
    by (simp add: count_of_lines)
next
  fix xs l ys u v
  assume a: "length (xs @ l # ys) < 2 ^ 31 \<and> parse_line l = Some (u, v) \<and>
       (u = v \<or> (u, v) \<in> set (parsed (xs @ ys)) \<or> (v, u) \<in> set (parsed (xs @ ys)))"
  then have s: "length (xs @ ys) < 2 ^ 31"
    by simp
  have b: "length (xs @ l # ys) < 2 ^ 31"
    using a by blast
  have "nbr_ids (parsed (xs @ l # ys)) = nbr_ids (parsed (xs @ ys))"
    using a by (intro nbr_ids_redundant) blast+
  then have "input_triangles (parsed (xs @ l # ys)) = input_triangles (parsed (xs @ ys))"
    by (rule input_triangles_cong)
  then show "runTriangleCounting (csr_of_lines (xs @ l # ys)) = runTriangleCounting (csr_of_lines (xs @ ys))"
    by (simp only: count_of_lines [OF s] count_of_lines [OF b])
qed

theorem redundant_records_keep_count_witness:
  "length ([js ''0 1'', js ''1 2''] @ js ''7 7'' # [js ''0 2'']) < (2::nat) ^ 31 \<and>
   parse_line (js ''7 7'') = Some (7, 7) \<and>
   runTriangleCounting (csr_of_lines ([js ''0 1'', js ''1 2''] @ js ''7 7'' # [js ''0 2''])) =
     runTriangleCounting (csr_of_lines ([js ''0 1'', js ''1 2''] @ [js ''0 2''])) \<and>
   parse_line (js ''1   0'') = Some (1, 0) \<and>
   (0, 1) \<in> set (parsed ([js ''0 1'', js ''1 2''] @ [js ''0 2''])) \<and>
   runTriangleCounting (csr_of_lines ([js ''0 1'', js ''1 2''] @ js ''1   0'' # [js ''0 2''])) =
     runTriangleCounting (csr_of_lines ([js ''0 1'', js ''1 2''] @ [js ''0 2''])) \<and>
   runTriangleCounting (csr_of_lines ([js ''0 1'', js ''1 2''] @ js ''7 7'' # [js ''0 2''])) = Some 1"
proof -
  have l: "length ([js ''0 1'', js ''1 2''] @ js ''7 7'' # [js ''0 2'']) < (2::nat) ^ 31"
    "length ([js ''0 1'', js ''1 2''] @ js ''1   0'' # [js ''0 2'']) < (2::nat) ^ 31"
    by simp_all
  have p: "parse_line (js ''7 7'') = Some (7, 7)" "parse_line (js ''1   0'') = Some (1, 0)"
    by code_simp+
  have "parsed ([js ''0 1'', js ''1 2''] @ [js ''0 2'']) = [(0, 1), (1, 2), (0, 2)]"
    by code_simp
  then have m: "(0, 1) \<in> set (parsed ([js ''0 1'', js ''1 2''] @ [js ''0 2'']))"
    by simp
  have c: "runTriangleCounting (csr_of_lines ([js ''0 1'', js ''1 2''] @ js ''7 7'' # [js ''0 2''])) = Some 1"
    by code_simp
  from redundant_records_keep_count
  have r: "length (xs @ l # ys) < 2 ^ 31 \<and> parse_line l = Some (u, v) \<and>
       (u = v \<or> (u, v) \<in> set (parsed (xs @ ys)) \<or> (v, u) \<in> set (parsed (xs @ ys))) \<longrightarrow>
       runTriangleCounting (csr_of_lines (xs @ l # ys)) = runTriangleCounting (csr_of_lines (xs @ ys))"
    for xs l ys u v
    by blast
  have a: "runTriangleCounting (csr_of_lines ([js ''0 1'', js ''1 2''] @ js ''7 7'' # [js ''0 2''])) =
     runTriangleCounting (csr_of_lines ([js ''0 1'', js ''1 2''] @ [js ''0 2'']))"
    using r [of "[js ''0 1'', js ''1 2'']" "js ''7 7''" "[js ''0 2'']" 7 7] l(1) p(1) by blast
  have b: "runTriangleCounting (csr_of_lines ([js ''0 1'', js ''1 2''] @ js ''1   0'' # [js ''0 2''])) =
     runTriangleCounting (csr_of_lines ([js ''0 1'', js ''1 2''] @ [js ''0 2'']))"
    using r [of "[js ''0 1'', js ''1 2'']" "js ''1   0''" "[js ''0 2'']" 1 0] l(2) p(2) m by blast
  show ?thesis
    using l(1) p m a b c by blast
qed

section \<open>The width of the counter\<close>

subsection \<open>The complete graph\<close>

lemma segment_concat:
  assumes "j < n"
  shows "segment (concat (map r [0..<n])) (length (concat (map r [0..<j])))
           (length (concat (map r [0..<Suc j]))) = r j"
proof -
  have "[0..<n] = [0..<j] @ j # [Suc j..<n]"
    using assms by (metis le_add_diff_inverse less_imp_le upt_add_eq_append upt_conv_Cons zero_le)
  then have "concat (map r [0..<n]) =
      concat (map r [0..<j]) @ r j @ concat (map r [Suc j..<n])"
    by simp
  then show ?thesis
    by (simp add: segment_def)
qed

lemma complete_offset:
  assumes "j \<le> n"
  shows "length (concat (map (\<lambda>i. map of_nat ([0..<i] @ [Suc i..<n]) :: u32 list) [0..<j])) = j * (n - 1)"
  using assms
proof (induction j)
  case 0
  then show ?case by simp
next
  case (Suc j)
  then show ?case by (simp add: algebra_simps)
qed

lemma complete_bounds:
  assumes "n \<le> (65535::nat)" and "j \<le> n"
  shows "j * (n - 1) < 2 ^ 32"
proof -
  have "j * (n - 1) \<le> 65535 * (65535::nat)"
    using assms by (intro mult_mono) simp_all
  then show ?thesis
    by simp
qed

lemma complete_rowPtr:
  assumes "n \<le> 65535" and "j \<le> n"
  shows "unat (rowPtr (complete_csr n) ! j) = j * (n - 1)"
proof -
  have "j < length [0..<n + 1]"
    using assms(2) by simp
  then have "map (\<lambda>i. (of_nat (i * (n - 1)) :: u32)) [0..<n + 1] ! j
      = of_nat ([0..<n + 1] ! j * (n - 1))"
    by (rule nth_map)
  also have "[0..<n + 1] ! j = j"
    using assms(2) by (metis add_0 less_Suc_eq_le nth_upt Suc_eq_plus1)
  finally have r: "rowPtr (complete_csr n) ! j = of_nat (j * (n - 1))"
    unfolding complete_csr_def by (simp only: csr.simps)
  show ?thesis
    unfolding r using complete_bounds [OF assms] by (rule unat_of_nat_small)
qed

lemma complete_edgeList:
  "edgeList (complete_csr n) = concat (map (\<lambda>i. map of_nat ([0..<i] @ [Suc i..<n])) [0..<n])"
  unfolding complete_csr_def by (simp only: csr.simps)

lemma complete_nbrs:
  assumes n: "n \<le> 65535" and i: "i < n"
  shows "nbrs (complete_csr n) i = [0..<i] @ [Suc i..<n]"
proof -
  let ?r = "\<lambda>i. map of_nat ([0..<i] @ [Suc i..<n]) :: u32 list"
  have o1: "length (concat (map ?r [0..<i])) = i * (n - 1)"
    using i by (intro complete_offset) simp
  have o2: "length (concat (map ?r [0..<Suc i])) = Suc i * (n - 1)"
    using i by (intro complete_offset) simp
  have r1: "unat (rowPtr (complete_csr n) ! i) = i * (n - 1)"
    using n i by (intro complete_rowPtr) simp_all
  have r2: "unat (rowPtr (complete_csr n) ! Suc i) = Suc i * (n - 1)"
    using n i by (intro complete_rowPtr) simp_all
  have "segment (concat (map ?r [0..<n])) (i * (n - 1)) (Suc i * (n - 1)) = ?r i"
    using segment_concat [OF i, of ?r] unfolding o1 o2 .
  then have "nbrs (complete_csr n) i = map unat (?r i)"
    unfolding nbrs_def r1 r2 complete_edgeList by (rule arg_cong)
  also have "map unat (?r i) = map (\<lambda>k. k) ([0..<i] @ [Suc i..<n])"
    unfolding map_map
  proof (rule map_cong [OF refl])
    fix k
    assume "k \<in> set ([0..<i] @ [Suc i..<n])"
    then have "k < 2 ^ 32"
      using n i by auto
    then show "(unat \<circ> (of_nat :: nat \<Rightarrow> u32)) k = k"
      by (simp add: unat_of_nat_small)
  qed
  finally show ?thesis
    by simp
qed

lemma complete_edge:
  assumes "n \<le> 65535" and "u < n"
  shows "edge (complete_csr n) u v = (v < n \<and> v \<noteq> u)"
  using assms by (auto simp: edge_def complete_nbrs)

lemma complete_csr_ok:
  assumes n: "n \<le> 65535"
  shows "csr_ok (complete_csr n)"
proof -
  let ?g = "complete_csr n"
  have nn: "numNodes ?g = n" and lr: "length (rowPtr ?g) = n + 1"
    by (simp_all add: complete_csr_def)
  have le: "length (edgeList ?g) = n * (n - 1)"
    using complete_offset [of n n] by (simp add: complete_csr_def)
  have "sorted (rowPtr ?g)"
    unfolding sorted_iff_nth_mono
  proof (intro allI impI)
    fix i j
    assume "i \<le> j" and "j < length (rowPtr ?g)"
    then have j: "j \<le> n" and i: "i \<le> n"
      by (simp_all add: lr)
    have "unat (rowPtr ?g ! i) \<le> unat (rowPtr ?g ! j)"
      using \<open>i \<le> j\<close> by (simp add: complete_rowPtr [OF n] i j)
    then show "rowPtr ?g ! i \<le> rowPtr ?g ! j"
      by (simp add: word_le_nat_alt)
  qed
  then have "rowPtr_ok ?g"
    using n by (simp add: rowPtr_ok_def nn lr le complete_rowPtr)
  moreover have "ids_ok ?g"
    unfolding ids_ok_def
  proof
    fix e
    assume "e \<in> set (edgeList ?g)"
    then obtain k where k: "e = of_nat k" "k < n"
      by (auto simp: complete_csr_def)
    then have "unat e = k"
      using n by (simp add: unat_of_nat_small)
    then show "unat e < numNodes ?g"
      using k nn by simp
  qed
  moreover have "rows_strict ?g"
    by (auto simp: rows_strict_def nn complete_nbrs [OF n] sorted_wrt_append)
  moreover have "no_self ?g"
    by (simp add: no_self_def nn complete_edge [OF n])
  moreover have "symmetric ?g"
    by (auto simp: symmetric_def nn complete_edge [OF n])
  ultimately show ?thesis
    by (simp add: csr_ok_def)
qed

lemma complete_triangles:
  assumes n: "n \<le> 65535"
  shows "triangles (complete_csr n) = {T. T \<subseteq> {..<n} \<and> card T = 3}"
proof -
  have "edge (complete_csr n) u v" if "T \<subseteq> {..<n}" "u \<in> T" "v \<in> T" "u \<noteq> v" for T u v
    using that complete_edge [OF n, of u v] by auto
  then show ?thesis
    by (auto simp: triangles_def complete_csr_def)
qed

lemma choose_3: "6 * (n choose 3) = n * (n - 1) * (n - 2)"
proof (cases n)
  case 0
  then show ?thesis by simp
next
  case (Suc m)
  show ?thesis
  proof (cases m)
    case 0
    then show ?thesis using Suc by simp
  next
    case (Suc k)
    have a: "3 * (Suc (Suc k) choose 3) = Suc (Suc k) * (Suc k choose 2)"
      using Suc_times_binomial_eq [of "Suc k" 2] by (simp add: numeral_3_eq_3 numeral_2_eq_2 mult.commute)
    have b: "2 * (Suc k choose 2) = Suc k * k"
      using Suc_times_binomial_eq [of k 1] by (simp add: numeral_2_eq_2 mult.commute)
    have "6 * (Suc (Suc k) choose 3) = 2 * (3 * (Suc (Suc k) choose 3))"
      by simp
    also have "\<dots> = Suc (Suc k) * (2 * (Suc k choose 2))"
      by (simp only: a)
    also have "\<dots> = Suc (Suc k) * (Suc k * k)"
      by (simp only: b)
    finally show ?thesis
      using \<open>n = Suc m\<close> Suc by (simp add: algebra_simps)
  qed
qed

lemma complete_card_triangles:
  assumes n: "n \<le> 65535"
  shows "6 * card (triangles (complete_csr n)) = n * (n - 1) * (n - 2)"
proof -
  have "card {T. T \<subseteq> {..<n} \<and> card T = 3} = card {..<n} choose 3"
    by (rule n_subsets) simp
  then show ?thesis
    by (simp add: complete_triangles [OF n] choose_3)
qed

lemma k2955_triangles: "card (triangles (complete_csr 2955)) = 4296157285"
proof -
  have "6 * card (triangles (complete_csr 2955)) = 2955 * (2955 - 1) * (2955 - 2)"
    by (rule complete_card_triangles) simp
  then show ?thesis
    by simp
qed

lemma k2955_count: "runTriangleCounting (complete_csr 2955) = Some 1189989"
proof -
  have ok: "csr_ok (complete_csr 2955)"
    by (rule complete_csr_ok) simp
  have n: "numNodes (complete_csr 2955) = 2955"
    by (simp add: complete_csr_def)
  have "runTriangleCounting (complete_csr 2955) = Some (of_nat (card (triangles (complete_csr 2955))))"
    unfolding runTriangleCounting_def using ok
  proof (rule schedule_total)
    show "numNodes (complete_csr 2955) \<le> ceil_div (numNodes (complete_csr 2955)) workgroupSize * workgroupSize"
      by (rule ceil_div_ge) (simp add: workgroupSize_def)
    show "ceil_div (numNodes (complete_csr 2955)) workgroupSize * workgroupSize \<le> 2 ^ 32"
      by (rule grid_256_fits) (simp add: n)
  qed simp
  then show ?thesis
    by (simp add: k2955_triangles)
qed

lemma complete_count:
  assumes "n \<le> 65535"
  shows "runTriangleCounting (complete_csr n) = Some (of_nat (card (triangles (complete_csr n))))"
proof -
  have ok: "csr_ok (complete_csr n)"
    using assms by (rule complete_csr_ok)
  have n: "numNodes (complete_csr n) = n"
    by (simp add: complete_csr_def)
  show ?thesis
    unfolding runTriangleCounting_def using ok
  proof (rule schedule_total)
    show "numNodes (complete_csr n) \<le> ceil_div (numNodes (complete_csr n)) workgroupSize * workgroupSize"
      by (rule ceil_div_ge) (simp add: workgroupSize_def)
    show "ceil_div (numNodes (complete_csr n)) workgroupSize * workgroupSize \<le> 2 ^ 32"
      using assms by (intro grid_256_fits) (simp add: n)
  qed simp
qed

lemma k3000_triangles: "card (triangles (complete_csr 3000)) = 4495501000"
proof -
  have "6 * card (triangles (complete_csr 3000)) = 3000 * (3000 - 1) * (3000 - 2)"
    by (rule complete_card_triangles) simp
  then show ?thesis
    by simp
qed

subsection \<open>The counter wraps\<close>

text \<open>
  Claim C1 as it is stated, with the exact number in the counter, fails: the complete
  graph on 2955 nodes has the invariants of the CSR graph and 4296157285 triangles,
  more than \<open>2 ^ 32\<close>; the run ends with 1189989 in the counter.
\<close>

theorem exact_count_counterexample:
  "csr_ok (complete_csr 2955) \<and>
   card (triangles (complete_csr 2955)) = 4296157285 \<and>
   runTriangleCounting (complete_csr 2955) = Some 1189989 \<and>
   map_option unat (runTriangleCounting (complete_csr 2955)) \<noteq>
     Some (card (triangles (complete_csr 2955)))"
proof -
  have "csr_ok (complete_csr 2955)"
    by (rule complete_csr_ok) simp
  then show ?thesis
    using k2955_triangles k2955_count by simp
qed

text \<open>
  Claim C9, as the code has it. The counter is a 32-bit word and nothing watches it:
  for a graph with the invariants of the CSR graph the run always returns a count, the
  number of triangles reduced modulo \<open>2 ^ 32\<close>. On a graph with \<open>2 ^ 32\<close> triangles or more
  the count wraps silently.
\<close>

theorem counter_wraps:
  assumes "csr_ok g"
  shows "map_option unat (runTriangleCounting g) = Some (card (triangles g) mod 2 ^ 32)"
proof -
  have n: "numNodes g + 1 < 2 ^ 32"
    using assms by (simp add: csr_ok_def rowPtr_ok_def)
  have "runTriangleCounting g = Some (of_nat (card (triangles g)))"
    unfolding runTriangleCounting_def using assms
  proof (rule schedule_total)
    show "numNodes g \<le> ceil_div (numNodes g) workgroupSize * workgroupSize"
      by (rule ceil_div_ge) (simp add: workgroupSize_def)
    show "ceil_div (numNodes g) workgroupSize * workgroupSize \<le> 2 ^ 32"
      using n by (rule grid_256_fits)
  qed simp
  then show ?thesis
    by (simp add: unat_of_nat)
qed

theorem counter_wraps_witness:
  "csr_ok (complete_csr 3000) \<and>
   map_option unat (runTriangleCounting (complete_csr 3000)) = Some (4495501000 mod 2 ^ 32)"
proof -
  have ok: "csr_ok (complete_csr 3000)"
    by (rule complete_csr_ok) simp
  show ?thesis
    using counter_wraps [OF ok] ok by (simp only: k3000_triangles)
qed

text \<open>
  On the complete graph on 3000 nodes, with 4495501000 triangles, the run returns
  200533704 as any other count.
\<close>

theorem silent_wrap_counterexample:
  "2 ^ 32 \<le> card (triangles (complete_csr 3000)) \<and>
   runTriangleCounting (complete_csr 3000) = Some 200533704 \<and>
   unat (200533704 :: u32) < card (triangles (complete_csr 3000))"
proof -
  have "runTriangleCounting (complete_csr 3000) = Some (of_nat (card (triangles (complete_csr 3000))))"
    by (rule complete_count) simp
  then show ?thesis
    by (simp add: k3000_triangles)
qed

end
